theory Spec2Isabelle
  imports Complex_Main
begin

chapter \<open>The model\<close>

section \<open>Dedup registry (\<open>PlaceBotHandlers.message_handler\<close>)\<close>

text \<open>
  The two class-level sets of \<open>PlaceBotHandlers\<close> and the block at the top of
  \<open>message_handler\<close> that tests and marks a message id. The handler returns silently in
  both rejection branches; the decision names the branch taken. \<open>release\<close> is the
  \<open>discard\<close> of the \<open>finally\<close> block (and of the two early returns).
\<close>

datatype AdmissionDecision = Proceed | AlreadyProcessing | AlreadyProcessed

record registry =
  processed_message_ids :: "int set"
  processing_messages :: "int set"

definition MAX_PROCESSED_IDS :: nat where
  "MAX_PROCESSED_IDS = 1000"

definition initial_registry :: registry where
  "initial_registry = \<lparr>processed_message_ids = {}, processing_messages = {}\<rparr>"

definition evict :: "int set \<Rightarrow> int set" where
  "evict S =
     (if card S > MAX_PROCESSED_IDS
      then set (drop (MAX_PROCESSED_IDS div 2) (sorted_list_of_set S))
      else S)"

definition admit :: "int \<Rightarrow> registry \<Rightarrow> AdmissionDecision \<times> registry" where
  "admit message_id r =
     (if message_id \<in> processed_message_ids r then (AlreadyProcessed, r)
      else if message_id \<in> processing_messages r then (AlreadyProcessing, r)
      else (Proceed,
            \<lparr>processed_message_ids = evict (insert message_id (processed_message_ids r)),
             processing_messages = insert message_id (processing_messages r)\<rparr>))"

definition release :: "int \<Rightarrow> registry \<Rightarrow> registry" where
  "release message_id r = r\<lparr>processing_messages := processing_messages r - {message_id}\<rparr>"

inductive reachable :: "registry \<Rightarrow> bool" where
  reach_init: "reachable initial_registry"
| reach_admit: "reachable r \<Longrightarrow> reachable (snd (admit message_id r))"
| reach_release: "reachable r \<Longrightarrow> reachable (release message_id r)"

section \<open>Text\<close>

text \<open>
  A Python \<open>str\<close> is a sequence of Unicode code points; it is modelled as the list of
  their numbers, so that character classes such as \<open>\s\<close> keep their meaning beyond
  ASCII. \<open>py\<close> reads an ASCII literal of the source.
\<close>

type_synonym pystr = "nat list"

definition py :: "string \<Rightarrow> pystr" where
  "py lit = map of_char lit"

section \<open>Link classification (\<open>PlaceBotHandlers._get_url_type\<close>)\<close>

text \<open>
  The three compiled patterns are written with a backtracking matcher: a matcher maps a
  text to the remainders left by every way its pattern can match a prefix, in the order
  the regular-expression engine tries them. \<open>re_match\<close> is \<open>Pattern.match\<close> seen as a
  truth value: anchored at the start, any remainder. The parts are the constructs the
  patterns use: a literal, \<open>(?:...)?\<close>, \<open>(?:a|b|c)\<close>, concatenation and \<open>[...]+\<close>.
\<close>

type_synonym matcher = "pystr \<Rightarrow> pystr list"

definition lit :: "string \<Rightarrow> matcher" where
  "lit p u = (if take (length p) u = py p then [drop (length p) u] else [])"

definition opt :: "matcher \<Rightarrow> matcher" where
  "opt m u = m u @ [u]"

definition alt :: "matcher list \<Rightarrow> matcher" where
  "alt ms u = concat (map (\<lambda>m. m u) ms)"

definition seq :: "matcher \<Rightarrow> matcher \<Rightarrow> matcher" where
  "seq a b u = concat (map b (a u))"

definition seqs :: "matcher list \<Rightarrow> matcher" where
  "seqs ms = foldr seq ms (\<lambda>u. [u])"

definition plus_class :: "(nat \<Rightarrow> bool) \<Rightarrow> matcher" where
  "plus_class P u = map (\<lambda>k. drop k u) (rev [1..<Suc (length (takeWhile P u))])"

definition re_match :: "matcher \<Rightarrow> pystr \<Rightarrow> bool" where
  "re_match m u = (m u \<noteq> [])"

definition shortcode_char :: "nat \<Rightarrow> bool" where
  "shortcode_char c = ((65 \<le> c \<and> c \<le> 90) \<or> (97 \<le> c \<and> c \<le> 122) \<or> (48 \<le> c \<and> c \<le> 57)
                        \<or> c = 95 \<or> c = 45)"

definition INSTAGRAM_REEL_PATTERN :: matcher where
  "INSTAGRAM_REEL_PATTERN =
     seqs [lit ''http'', opt (lit ''s''), lit ''://'', opt (lit ''www.''), lit ''instagram.com/'',
           alt [lit ''reel'', lit ''reels'', lit ''tv''], lit ''/'', plus_class shortcode_char]"

definition INSTAGRAM_POST_PATTERN :: matcher where
  "INSTAGRAM_POST_PATTERN =
     seqs [lit ''http'', opt (lit ''s''), lit ''://'', opt (lit ''www.''), lit ''instagram.com/'',
           lit ''p'', lit ''/'', plus_class shortcode_char]"

definition INSTAGRAM_SHARE_PATTERN :: matcher where
  "INSTAGRAM_SHARE_PATTERN =
     seqs [lit ''http'', opt (lit ''s''), lit ''://'', opt (lit ''www.''), lit ''instagram.com/'',
           lit ''share'', lit ''/'', plus_class shortcode_char]"

definition get_url_type :: "pystr \<Rightarrow> string" where
  "get_url_type url =
     (if re_match INSTAGRAM_REEL_PATTERN url then ''reel''
      else if re_match INSTAGRAM_POST_PATTERN url then ''post''
      else if re_match INSTAGRAM_SHARE_PATTERN url then ''share''
      else ''unknown'')"

text \<open>The prefix shared by the three patterns and what follows it in each.\<close>

definition host_prefix :: "matcher list" where
  "host_prefix = [lit ''http'', opt (lit ''s''), lit ''://'', opt (lit ''www.''), lit ''instagram.com/'']"

definition reel_tail :: "matcher list" where
  "reel_tail = [alt [lit ''reel'', lit ''reels'', lit ''tv''], lit ''/'', plus_class shortcode_char]"

definition post_tail :: "matcher list" where
  "post_tail = [lit ''p'', lit ''/'', plus_class shortcode_char]"

definition share_tail :: "matcher list" where
  "share_tail = [lit ''share'', lit ''/'', plus_class shortcode_char]"

section \<open>JSON repair (\<open>PlaceExtractor._parse_response\<close>)\<close>

text \<open>
  \<open>is_space\<close> is the class \<open>\s\<close> of a \<open>str\<close> pattern: the code points Python counts as
  whitespace. The code points named by number below are
  \<open>,\<close> (44), \<open>}\<close> (125), \<open>]\<close> (93), \<open>/\<close> (47) and the newline (10).

  \<open>remove_trailing_commas\<close> is \<^verbatim>\<open>re.sub(r',\s*([}\]])', r'\1', json_str)\<close>: scanning from the
  left, a comma followed by whitespace and a closing bracket is replaced by the bracket,
  and the scan continues after the bracket. The whitespace run is matched greedily; giving
  some of it back cannot help, since no whitespace is a bracket.

  \<open>strip_line_comments\<close> is \<^verbatim>\<open>re.sub(r'//.*?(?=\n|$)', '', json_str)\<close>: from \<open>//\<close> the lazy
  \<open>.*?\<close> stops at the first newline or at the end of the text (\<open>.\<close> matches no newline),
  and the scan continues there.
\<close>

definition is_space :: "nat \<Rightarrow> bool" where
  "is_space c = (c \<in> set [9, 10, 11, 12, 13, 28, 29, 30, 31, 32, 133, 160, 5760,
                            8232, 8233, 8239, 8287, 12288]
                 \<or> (8192 \<le> c \<and> c \<le> 8202))"

function remove_trailing_commas :: "pystr \<Rightarrow> pystr" where
  "remove_trailing_commas [] = []"
| "remove_trailing_commas (c # cs) =
     (if c = 44 then
        (case dropWhile is_space cs of
           [] \<Rightarrow> c # remove_trailing_commas cs
         | d # ds \<Rightarrow> if d = 125 \<or> d = 93 then d # remove_trailing_commas ds
                    else c # remove_trailing_commas cs)
      else c # remove_trailing_commas cs)"
  by pat_completeness auto
termination
proof (relation "measure length")
  fix c :: nat and cs d ds
  assume "dropWhile is_space cs = d # ds"
  then have "length (d # ds) \<le> length cs" by (metis length_dropWhile_le)
  then show "(ds, c # cs) \<in> measure length" by simp
qed simp_all

function strip_line_comments :: "pystr \<Rightarrow> pystr" where
  "strip_line_comments [] = []"
| "strip_line_comments (c # cs) =
     (if c = 47 \<and> (case cs of [] \<Rightarrow> False | d # _ \<Rightarrow> d = 47)
      then strip_line_comments (dropWhile (\<lambda>x. x \<noteq> 10) (tl cs))
      else c # strip_line_comments cs)"
  by pat_completeness auto
termination
proof (relation "measure length")
  fix c :: nat and cs :: "nat list"
  have "length (dropWhile (\<lambda>x. x \<noteq> 10) (tl cs)) \<le> length (tl cs)"
    by (rule length_dropWhile_le)
  then show "(dropWhile (\<lambda>x. x \<noteq> 10) (tl cs), c # cs) \<in> measure length" by simp
qed simp_all

definition repair_json :: "pystr \<Rightarrow> pystr" where
  "repair_json json_str = strip_line_comments (remove_trailing_commas json_str)"

text \<open>
  Shapes of a text used to state when the repair is stable: whether a text starts, after
  whitespace, with a closing bracket, or with a comma that the repair would remove;
  whether some comma is followed by such a removable comma; whether \<open>//\<close> occurs.
\<close>

definition trailing_closer :: "pystr \<Rightarrow> bool" where
  "trailing_closer cs =
     (case dropWhile is_space cs of [] \<Rightarrow> False | d # _ \<Rightarrow> d = 125 \<or> d = 93)"

definition trailing_comma :: "pystr \<Rightarrow> bool" where
  "trailing_comma cs =
     (case dropWhile is_space cs of [] \<Rightarrow> False | d # ds \<Rightarrow> d = 44 \<and> trailing_closer ds)"

fun no_double_comma :: "pystr \<Rightarrow> bool" where
  "no_double_comma [] = True"
| "no_double_comma (c # cs) = (\<not> (c = 44 \<and> trailing_comma cs) \<and> no_double_comma cs)"

definition starts_slash :: "pystr \<Rightarrow> bool" where
  "starts_slash cs = (case cs of [] \<Rightarrow> False | d # _ \<Rightarrow> d = 47)"

fun no_comment :: "pystr \<Rightarrow> bool" where
  "no_comment [] = True"
| "no_comment (c # cs) = (\<not> (c = 47 \<and> starts_slash cs) \<and> no_comment cs)"

fun no_trailing_comma :: "pystr \<Rightarrow> bool" where
  "no_trailing_comma [] = True"
| "no_trailing_comma (c # cs) = (\<not> (c = 44 \<and> trailing_closer cs) \<and> no_trailing_comma cs)"

section \<open>Substring test\<close>

text \<open>\<open>contains sub s\<close> is Python's \<open>sub in s\<close> on strings.\<close>

fun contains :: "pystr \<Rightarrow> pystr \<Rightarrow> bool" where
  "contains sub [] = (sub = [])"
| "contains sub (c # cs) = (take (length sub) (c # cs) = sub \<or> contains sub cs)"

section \<open>Image download (\<open>InstagramDownloader\<close>, \<open>downloader.py\<close>)\<close>

text \<open>
  A downloaded image is named by its file name inside the fresh directory of the download:
  \<open>image_name idx ext\<close> is \<^verbatim>\<open>f"image_{idx:02d}.{ext}"\<close>.

  \<open>_download_post_sync\<close> talks to the instaloader library. What the library answers is a
  parameter of the model: \<open>from_shortcode\<close> is the post's metadata or the exception
  raised while loading it, \<open>mkdir\<close> and \<open>get_and_write_raw\<close> say whether the directory
  creation and each download raise. \<open>on_exception\<close> is the chain of \<open>except\<close> clauses
  at the end of the method: every exception ends in a failed result. The messages are the
  source's string literals, written as code points.

  \<open>_download_thread_images\<close> fetches over HTTP: \<open>client_get idx img_url\<close> is the
  \<open>content-type\<close> header of the response when the request, its status check and the write
  succeed, and \<open>None\<close> when any of them raises (the loop body catches it and goes on).

  \<open>images_to_analyze\<close> is the slice \<open>post_result.image_paths[:5]\<close> of \<open>message_handler\<close>.
\<close>

function decimal :: "nat \<Rightarrow> pystr" where
  "decimal n = (if n < 10 then [48 + n] else decimal (n div 10) @ [48 + n mod 10])"
  by pat_completeness auto
termination
  by (relation "measure id") auto


datatype exn =
    ProfileNotExistsException pystr
  | PrivateProfileNotFollowedException pystr
  | LoginRequiredException pystr
  | PostChangedException pystr
  | OtherException pystr

record PostDownloadResult =
  success :: bool
  content_type :: pystr
  image_paths :: "pystr list"
  video_path :: "pystr option"
  audio_path :: "pystr option"
  caption :: "pystr option"
  title :: "pystr option"
  error_message :: "pystr option"

definition failed :: "pystr \<Rightarrow> pystr \<Rightarrow> PostDownloadResult" where
  "failed ctype msg =
     \<lparr>success = False, content_type = ctype, image_paths = [], video_path = None,
      audio_path = None, caption = None, title = None, error_message = Some msg\<rparr>"

record sidecar_node =
  is_video :: bool
  display_url :: pystr

record post =
  typename :: pystr
  post_caption :: "pystr option"
  post_title :: "pystr option"
  owner_username :: pystr
  post_url :: pystr
  sidecar_nodes :: "sidecar_node list"


definition on_exception :: "exn \<Rightarrow> PostDownloadResult" where
  "on_exception e =
     (case e of
        ProfileNotExistsException _ \<Rightarrow>
          failed (py ''post'') [25214, 19981, 21040, 27492, 24115, 34399]
      | PrivateProfileNotFollowedException _ \<Rightarrow>
          failed (py ''post'') [27492, 24115, 34399, 28858, 31169, 20154, 24115, 34399, 65292,
                                28961, 27861, 23384, 21462]
      | LoginRequiredException _ \<Rightarrow>
          failed (py ''post'') ([38656, 35201, 30331, 20837, 25165, 33021, 23384, 21462, 27492,
                                 20839, 23481, 65292, 35531, 30906, 35469]
                                @ py '' cookies.txt '' @ [26159, 21542, 26377, 25928])
      | PostChangedException m \<Rightarrow>
          failed (py ''post'') ([36028, 25991, 24050, 34987, 20462, 25913, 25110, 21034, 38500]
                                @ py '': '' @ m)
      | OtherException m \<Rightarrow>
          failed (py ''post'') ([19979, 36617, 22833, 25943] @ py '': '' @ m))"


definition finish :: "pystr \<Rightarrow> pystr list \<Rightarrow> pystr \<Rightarrow> pystr \<Rightarrow> PostDownloadResult" where
  "finish ctype paths cap ttl =
     (if paths = [] then failed (py ''post'') [28961, 27861, 19979, 36617, 20219, 20309, 22294, 29255]
      else \<lparr>success = True, content_type = ctype, image_paths = paths, video_path = None,
            audio_path = None, caption = Some cap, title = Some ttl, error_message = None\<rparr>)"








section \<open>JSON values and the Python operations on them\<close>

text \<open>
  What \<open>json.loads\<close> returns: \<open>None\<close>, a \<open>bool\<close>, an \<open>int\<close>, a \<open>float\<close> (a finite
  one is a rational number; \<open>json.loads\<close> also accepts \<open>Infinity\<close> and \<open>NaN\<close>), a \<open>str\<close>,
  a \<open>list\<close> or a \<open>dict\<close>. A \<open>dict\<close> is the list of its items in insertion order; its keys
  are strings, and distinct in every value \<open>json.loads\<close> returns.

  \<open>truthy\<close> is the truth value Python gives a value in \<open>if\<close> and \<open>not\<close>, \<open>py_eq\<close> is
  \<open>==\<close> (a \<open>bool\<close> is the number 0 or 1, numbers compare by value, \<open>NaN\<close> equals nothing),
  \<open>py_get\<close> is \<open>obj.get(key, default)\<close>, which only a \<open>dict\<close> has, and \<open>py_iter\<close> is
  what a \<open>for\<close> loop runs through. An operation a value does not support raises; the
  error carries the text \<open>str(e)\<close> of the exception.
\<close>

datatype pyfloat = Finite rat | PosInf | NegInf | NaN

datatype json =
    JNull
  | JBool bool
  | JInt int
  | JFloat pyfloat
  | JStr pystr
  | JList "json list"
  | JDict "(pystr \<times> json) list"

fun truthy :: "json \<Rightarrow> bool" where
  "truthy JNull = False"
| "truthy (JBool b) = b"
| "truthy (JInt n) = (n \<noteq> 0)"
| "truthy (JFloat f) = (f \<noteq> Finite 0)"
| "truthy (JStr s) = (s \<noteq> [])"
| "truthy (JList xs) = (xs \<noteq> [])"
| "truthy (JDict d) = (d \<noteq> [])"

fun number :: "json \<Rightarrow> pyfloat option" where
  "number (JBool b) = Some (Finite (if b then 1 else 0))"
| "number (JInt n) = Some (Finite (of_int n))"
| "number (JFloat f) = Some f"
| "number _ = None"

fun py_eq :: "json \<Rightarrow> json \<Rightarrow> bool" where
  "py_eq (JList xs) (JList ys) = list_all2 py_eq xs ys"
| "py_eq (JDict d) (JDict e) =
     (length d = length e
      \<and> list_all (\<lambda>(k, v). list_ex (\<lambda>(k', w). k' = k \<and> py_eq v w) e) d)"
| "py_eq (JStr s) (JStr t) = (s = t)"
| "py_eq JNull JNull = True"
| "py_eq a b =
     (case (number a, number b) of
        (Some x, Some y) \<Rightarrow> x \<noteq> NaN \<and> x = y
      | _ \<Rightarrow> False)"

fun type_name :: "json \<Rightarrow> pystr" where
  "type_name JNull = py ''NoneType''"
| "type_name (JBool _) = py ''bool''"
| "type_name (JInt _) = py ''int''"
| "type_name (JFloat _) = py ''float''"
| "type_name (JStr _) = py ''str''"
| "type_name (JList _) = py ''list''"
| "type_name (JDict _) = py ''dict''"

datatype py_error = AttributeError pystr | TypeError pystr | KeyError pystr | IndexError pystr

fun str_of_error :: "py_error \<Rightarrow> pystr" where
  "str_of_error (AttributeError m) = m"
| "str_of_error (TypeError m) = m"
| "str_of_error (KeyError m) = m"
| "str_of_error (IndexError m) = m"

definition no_attribute :: "json \<Rightarrow> string \<Rightarrow> py_error" where
  "no_attribute v attr =
     AttributeError (py [CHR 0x27] @ type_name v @ py ([CHR 0x27] @ '' object has no attribute '' @ [CHR 0x27])
                     @ py attr @ py [CHR 0x27])"

definition not_iterable :: "json \<Rightarrow> py_error" where
  "not_iterable v = TypeError (py [CHR 0x27] @ type_name v @ py ([CHR 0x27] @ '' object is not iterable''))"

definition lookup :: "(pystr \<times> json) list \<Rightarrow> string \<Rightarrow> json \<Rightarrow> json" where
  "lookup d k dflt = (case map_of d (py k) of None \<Rightarrow> dflt | Some v \<Rightarrow> v)"

definition py_get :: "json \<Rightarrow> string \<Rightarrow> json \<Rightarrow> py_error + json" where
  "py_get obj k dflt =
     (case obj of JDict d \<Rightarrow> Inr (lookup d k dflt) | _ \<Rightarrow> Inl (no_attribute obj ''get''))"

fun py_iter :: "json \<Rightarrow> py_error + json list" where
  "py_iter (JList xs) = Inr xs"
| "py_iter (JStr s) = Inr (map (\<lambda>c. JStr [c]) s)"
| "py_iter (JDict d) = Inr (map (\<lambda>(k, v). JStr k) d)"
| "py_iter v = Inl (not_iterable v)"

section \<open>Response parsing (\<open>PlaceExtractor._parse_response\<close>, \<open>PlaceExtractor.extract\<close>)\<close>

text \<open>
  \<open>PlaceInfo\<close> and \<open>ExtractionResult\<close> are the two dataclasses of \<open>place_extractor.py\<close>;
  the fields of a place hold whatever JSON value the model's reply gave them. The field
  \<open>notes\<close> is called \<open>result_notes\<close> here and the method \<open>extract\<close> is called
  \<open>extract_places\<close>, since Isabelle reserves both words.

  \<open>json.loads\<close> is a parameter \<open>loads\<close>: it returns the parsed value, or \<open>Inl\<close> the text of
  the \<open>JSONDecodeError\<close> it raises. \<open>interpret_data\<close> is the part of \<open>_parse_response\<close>
  after a successful parse; an \<open>AttributeError\<close> or \<open>TypeError\<close> raised there leaves
  \<open>_parse_response\<close> (it catches \<open>JSONDecodeError\<close> only) and is caught in \<open>extract\<close>.

  The text steps before the parse: \<open>strip_marker m\<close> is \<^verbatim>\<open>re.sub(m + r'\s*', '', text)\<close>
  and \<open>strip_fence_end\<close> is the substitution of a fence of three backquotes followed by
  whitespace up to the end of the text (\<open>fence\<close> is the three backquotes, code point 96);
  \<open>brace_span\<close> is \<^verbatim>\<open>re.search(r'\{[\s\S]*\}', text)\<close>, from the first opening brace to
  the last closing brace after it; \<open>find_anchor\<close> is
  \<^verbatim>\<open>re.search(r'\{\s*"found"[\s\S]*', json_str)\<close>, the rest of the text from the leftmost
  opening brace that is followed, after optional whitespace, by the quoted word
  \<open>found\<close>; \<open>pad_braces\<close> appends the missing closing braces.

  \<open>parse_response_run\<close> is \<open>_parse_response\<close> together with the list of the texts it
  hands to \<open>json.loads\<close>, in order; \<open>parse_response\<close> is its result and \<open>loads_calls\<close>
  that list. In \<open>extract_places\<close> the outcome of the model call is a parameter: the reply
  text, or \<open>Inl\<close> the text of the exception the call raised.
\<close>

record PlaceInfo =
  confidence :: json
  name :: json
  name_en :: json
  city :: json
  country :: json
  address :: json
  place_type :: json
  highlights :: json
  price_range :: json
  recommendation :: json
  tags :: json
  search_keywords :: json

record ExtractionResult =
  found :: bool
  places :: "PlaceInfo list"
  result_notes :: json

definition place_info_of :: "json \<Rightarrow> py_error + PlaceInfo" where
  "place_info_of place_data =
     (case place_data of
        JDict d \<Rightarrow>
          Inr \<lparr>confidence = lookup d ''confidence'' (JStr (py ''low'')),
               name = lookup d ''name'' JNull,
               name_en = lookup d ''name_en'' JNull,
               city = lookup d ''city'' JNull,
               country = lookup d ''country'' JNull,
               address = lookup d ''address'' JNull,
               place_type = lookup d ''place_type'' (JList []),
               highlights = lookup d ''highlights'' (JList []),
               price_range = lookup d ''price_range'' JNull,
               recommendation = lookup d ''recommendation'' JNull,
               tags = lookup d ''tags'' (JList []),
               search_keywords = lookup d ''search_keywords'' (JList [])\<rparr>
      | _ \<Rightarrow> Inl (no_attribute place_data ''get''))"

fun build_places :: "json list \<Rightarrow> py_error + PlaceInfo list" where
  "build_places [] = Inr []"
| "build_places (place_data # rest) =
     (case place_info_of place_data of
        Inl e \<Rightarrow> Inl e
      | Inr place \<Rightarrow>
          (case build_places rest of Inl e \<Rightarrow> Inl e | Inr others \<Rightarrow> Inr (place # others)))"

definition interpret_data :: "json \<Rightarrow> py_error + ExtractionResult" where
  "interpret_data data =
     (case data of
        JDict d \<Rightarrow>
          if \<not> truthy (lookup d ''found'' (JBool False))
          then Inr \<lparr>found = False, places = [], result_notes = lookup d ''notes'' JNull\<rparr>
          else
            let places_data = lookup d ''places'' (JList []);
                places_data =
                  (if \<not> truthy places_data
                   then (case map_of d (py ''place'') of
                           Some p \<Rightarrow> JList [p]
                         | None \<Rightarrow> places_data)
                   else places_data)
            in (case py_iter places_data of
                  Inl e \<Rightarrow> Inl e
                | Inr items \<Rightarrow>
                    (case build_places items of
                       Inl e \<Rightarrow> Inl e
                     | Inr ps \<Rightarrow>
                         Inr \<lparr>found = (length ps > 0), places = ps,
                              result_notes = lookup d ''notes'' JNull\<rparr>))
      | _ \<Rightarrow> Inl (no_attribute data ''get''))"

definition fence :: pystr where
  "fence = [96, 96, 96]"

function strip_marker :: "pystr \<Rightarrow> pystr \<Rightarrow> pystr" where
  "strip_marker m [] = []"
| "strip_marker m (c # cs) =
     (if m \<noteq> [] \<and> take (length m) (c # cs) = m
      then strip_marker m (dropWhile is_space (drop (length m) (c # cs)))
      else c # strip_marker m cs)"
  by pat_completeness auto
termination
proof (relation "measure (\<lambda>(m, s). length s)")
  fix m :: pystr and c :: nat and cs :: pystr
  assume "m \<noteq> [] \<and> take (length m) (c # cs) = m"
  then have "0 < length m" by simp
  moreover have "length (dropWhile is_space (drop (length m) (c # cs)))
      \<le> length (drop (length m) (c # cs))"
    by (rule length_dropWhile_le)
  ultimately show "((m, dropWhile is_space (drop (length m) (c # cs))), (m, c # cs))
      \<in> measure (\<lambda>(m, s). length s)"
    by (cases m) auto
qed simp_all

fun strip_fence_end :: "pystr \<Rightarrow> pystr" where
  "strip_fence_end [] = []"
| "strip_fence_end (c # cs) =
     (if take 3 (c # cs) = fence \<and> list_all is_space (drop 3 (c # cs)) then []
      else c # strip_fence_end cs)"

definition strip_code_fences :: "pystr \<Rightarrow> pystr" where
  "strip_code_fences response_text =
     (if contains (fence @ py ''json'') response_text
      then strip_fence_end (strip_marker (fence @ py ''json'') response_text)
      else if contains fence response_text
      then strip_marker fence response_text
      else response_text)"

definition brace_span :: "pystr \<Rightarrow> pystr option" where
  "brace_span s =
     (case dropWhile (\<lambda>c. c \<noteq> 123) s of
        [] \<Rightarrow> None
      | c # cs \<Rightarrow>
          (case rev (dropWhile (\<lambda>c. c \<noteq> 125) (rev cs)) of
             [] \<Rightarrow> None
           | body \<Rightarrow> Some (c # body)))"

definition anchor_at :: "pystr \<Rightarrow> bool" where
  "anchor_at s =
     (case s of
        [] \<Rightarrow> False
      | c # cs \<Rightarrow> c = 123 \<and> take 7 (dropWhile is_space cs) = 34 # py ''found'' @ [34])"

fun find_anchor :: "pystr \<Rightarrow> pystr option" where
  "find_anchor [] = None"
| "find_anchor (c # cs) = (if anchor_at (c # cs) then Some (c # cs) else find_anchor cs)"

definition pad_braces :: "pystr \<Rightarrow> pystr" where
  "pad_braces json_str =
     (let open_braces = count_list json_str 123;
          close_braces = count_list json_str 125
      in if open_braces > close_braces
         then json_str @ replicate (open_braces - close_braces) 125
         else json_str)"

definition not_found :: "json \<Rightarrow> ExtractionResult" where
  "not_found note = \<lparr>found = False, places = [], result_notes = note\<rparr>"

definition parse_failed :: "pystr \<Rightarrow> ExtractionResult" where
  "parse_failed err =
     not_found (JStr (py ''JSON '' @ [35299, 26512, 22833, 25943] @ py '': '' @ err))"

definition parse_response_run ::
  "(pystr \<Rightarrow> pystr + json) \<Rightarrow> pystr \<Rightarrow> pystr list \<times> (py_error + ExtractionResult)" where
  "parse_response_run loads response_text =
     (case brace_span (strip_code_fences response_text) of
        None \<Rightarrow> ([], Inr (not_found (JStr [28961, 27861, 35299, 26512, 22238, 25033])))
      | Some braces \<Rightarrow>
          let json_str = repair_json braces in
          (case loads json_str of
             Inr data \<Rightarrow> ([json_str], interpret_data data)
           | Inl first_error \<Rightarrow>
               (case find_anchor json_str of
                  None \<Rightarrow> ([json_str], Inr (parse_failed first_error))
                | Some anchored \<Rightarrow>
                    (case loads (pad_braces anchored) of
                       Inr data \<Rightarrow> ([json_str, pad_braces anchored], interpret_data data)
                     | Inl second_error \<Rightarrow>
                         ([json_str, pad_braces anchored], Inr (parse_failed second_error))))))"

definition parse_response :: "(pystr \<Rightarrow> pystr + json) \<Rightarrow> pystr \<Rightarrow> py_error + ExtractionResult" where
  "parse_response loads response_text = snd (parse_response_run loads response_text)"


definition extract_places :: "(pystr \<Rightarrow> pystr + json) \<Rightarrow> pystr + pystr \<Rightarrow> ExtractionResult" where
  "extract_places loads chat =
     (case chat of
        Inl e \<Rightarrow> not_found (JStr e)
      | Inr result_text \<Rightarrow>
          (case parse_response loads result_text of
             Inl e \<Rightarrow> not_found (JStr (str_of_error e))
           | Inr result \<Rightarrow> result))"

text \<open>
  Example inputs: a parsed reply whose flag is true and whose place list is empty, and a
  reply cut off after an opening brace.
\<close>

definition demo_reply :: "(pystr \<times> json) list" where
  "demo_reply = [(py ''found'', JBool True), (py ''places'', JList [])]"


text \<open>
  \<open>py_format str_of v\<close> is what an f-string puts for \<open>{v}\<close>: a string as it is, and
  \<open>str(v)\<close> for any other value, which is the parameter \<open>str_of\<close>.
\<close>

definition py_format :: "(json \<Rightarrow> pystr) \<Rightarrow> json \<Rightarrow> pystr" where
  "py_format str_of v = (case v of JStr s \<Rightarrow> s | _ \<Rightarrow> str_of v)"

section \<open>Concurrent place search (\<open>PlaceBotHandlers.message_handler\<close>)\<close>

text \<open>
  \<open>asyncio.gather\<close> belongs to the Python library; it is modelled by what it does with the
  tasks it is given. Every task has a slot, at its position in the argument list. The
  tasks finish in some order, the completion order, which the scheduler and the network
  decide: it is a parameter. A task that finishes with a value fills its own slot; the
  first task that finishes with an exception makes \<open>gather\<close> raise that exception. When
  the completion order is used up, \<open>gather\<close> returns the values of the slots, in slot
  order, if every slot is filled; \<open>None\<close> stands for a \<open>gather\<close> that is still waiting.
\<close>

fun gather_run :: "(py_error + 'a) list \<Rightarrow> nat list \<Rightarrow> 'a option list \<Rightarrow> (py_error + 'a list) option" where
  "gather_run tasks [] slots = map_option Inr (those slots)"
| "gather_run tasks (i # rest) slots =
     (if i < length tasks
      then (case tasks ! i of
              Inl e \<Rightarrow> Some (Inl e)
            | Inr v \<Rightarrow> gather_run tasks rest (slots[i := Some v]))
      else gather_run tasks rest slots)"

definition gather :: "(py_error + 'a) list \<Rightarrow> nat list \<Rightarrow> (py_error + 'a list) option" where
  "gather tasks completion_order = gather_run tasks completion_order (replicate (length tasks) None)"

text \<open>
  \<open>search_place_with_info\<close> is the coroutine defined inside \<open>message_handler\<close>.
  \<open>first_item v\<close> is \<open>v[0]\<close>. The f-string that joins name and city is written with
  \<open>py_format\<close>. The place search is a collaborator: \<open>search_place\<close>
  is what it answers to a query, a result or an exception. \<open>search_tasks\<close> is the list
  comprehension that builds one task per place, in the order of
  \<open>extraction_result.places\<close> (the \<open>i\<close>-th task gets the answers \<open>search_place i\<close> of its own
  call), and \<open>search_results\<close> is \<open>await asyncio.gather(*search_tasks)\<close>.
\<close>

definition not_subscriptable :: "json \<Rightarrow> py_error" where
  "not_subscriptable v =
     TypeError (py [CHR 0x27] @ type_name v @ py ([CHR 0x27] @ '' object is not subscriptable''))"

fun first_item :: "json \<Rightarrow> py_error + json" where
  "first_item (JList (x # xs)) = Inr x"
| "first_item (JList []) = Inl (IndexError (py ''list index out of range''))"
| "first_item (JStr (c # cs)) = Inr (JStr [c])"
| "first_item (JStr []) = Inl (IndexError (py ''string index out of range''))"
| "first_item (JDict d) = Inl (KeyError (py ''0''))"
| "first_item v = Inl (not_subscriptable v)"

definition search_place_with_info ::
  "(json \<Rightarrow> pystr) \<Rightarrow> (json \<Rightarrow> py_error + 'r) \<Rightarrow> PlaceInfo \<Rightarrow> py_error + (PlaceInfo \<times> 'r)" where
  "search_place_with_info str_of search_place place_info =
     (case (if truthy (search_keywords place_info) then first_item (search_keywords place_info)
            else Inr (name place_info)) of
        Inl e \<Rightarrow> Inl e
      | Inr keyword \<Rightarrow>
          let search_query =
                (if truthy (city place_info) \<and> truthy (name place_info)
                 then JStr (py_format str_of (name place_info) @ py '' ''
                            @ py_format str_of (city place_info))
                 else keyword)
          in (case search_place search_query of
                Inl e \<Rightarrow> Inl e
              | Inr place_result \<Rightarrow> Inr (place_info, place_result)))"

definition search_tasks ::
  "(json \<Rightarrow> pystr) \<Rightarrow> (nat \<Rightarrow> json \<Rightarrow> py_error + 'r) \<Rightarrow> PlaceInfo list
     \<Rightarrow> (py_error + (PlaceInfo \<times> 'r)) list" where
  "search_tasks str_of search_place place_list =
     map (\<lambda>(i, place_info). search_place_with_info str_of (search_place i) place_info)
         (enumerate 0 place_list)"

definition search_results ::
  "(json \<Rightarrow> pystr) \<Rightarrow> (nat \<Rightarrow> json \<Rightarrow> py_error + 'r) \<Rightarrow> nat list \<Rightarrow> PlaceInfo list
     \<Rightarrow> (py_error + (PlaceInfo \<times> 'r) list) option" where
  "search_results str_of search_place completion_order place_list =
     gather (search_tasks str_of search_place place_list) completion_order"

text \<open>Example inputs: three places and the pairs their searches give.\<close>

definition demo_place :: "pystr \<Rightarrow> PlaceInfo" where
  "demo_place n =
     \<lparr>confidence = JStr (py ''high''), name = JStr n, name_en = JNull, city = JNull,
      country = JNull, address = JNull, place_type = JList [], highlights = JList [],
      price_range = JNull, recommendation = JNull, tags = JList [],
      search_keywords = JList [JStr n]\<rparr>"

definition demo_places :: "PlaceInfo list" where
  "demo_places = [demo_place (py ''P1''), demo_place (py ''P2''), demo_place (py ''P3'')]"

definition demo_joined :: "(PlaceInfo \<times> json) list" where
  "demo_joined = [(demo_place (py ''P1''), JStr (py ''P1'')),
                  (demo_place (py ''P2''), JStr (py ''P2'')),
                  (demo_place (py ''P3''), JStr (py ''P3''))]"

section \<open>Thread aggregation (\<open>InstagramDownloader._extract_from_thread_node\<close>)\<close>

text \<open>
  \<open>bind_err\<close> runs the next step on the value of a step that did not raise. \<open>py_in\<close> is
  \<open>in\<close> on a list, by \<open>==\<close> (the identity shortcut of \<open>in\<close> matters for \<open>NaN\<close> only), and
  \<open>py_join\<close> is \<open>sep.join\<close>, which raises on an item that is not a string.

  The dictionary \<open>result\<close> that the helper methods fill is the record \<open>media\<close> (its three
  lists) inside the record \<open>thread_data\<close>; the key \<open>caption\<close> is the field
  \<open>thread_caption\<close>. \<open>first_url versions\<close> is \<^verbatim>\<open>versions[0].get("url")\<close> and
  \<open>candidates_of\<close> the lookup of \<open>image_versions2.candidates\<close> that four of the helpers
  share. \<open>username_of\<close> is the chain of \<open>get\<close> calls that reads an item's author, the same
  for the first item and inside the filter loop; \<open>author_items_of\<close> is the filter loop,
  \<open>collect_item\<close> the body of the aggregation loop, \<open>merge_parts\<close> the joining of caption
  or description parts, and \<open>aggregate\<close> everything after the filter loop. A step that
  raises ends the whole method with that exception.
\<close>

definition bind_err :: "'e + 'a \<Rightarrow> ('a \<Rightarrow> 'e + 'b) \<Rightarrow> 'e + 'b" where
  "bind_err x f = (case x of Inl e \<Rightarrow> Inl e | Inr v \<Rightarrow> f v)"

definition py_in :: "json \<Rightarrow> json list \<Rightarrow> bool" where
  "py_in x xs = list_ex (\<lambda>e. py_eq e x) xs"

fun join_with :: "pystr \<Rightarrow> pystr list \<Rightarrow> pystr" where
  "join_with sep [] = []"
| "join_with sep [x] = x"
| "join_with sep (x # y # ys) = x @ sep @ join_with sep (y # ys)"

fun str_items :: "nat \<Rightarrow> json list \<Rightarrow> py_error + pystr list" where
  "str_items k [] = Inr []"
| "str_items k (JStr s # rest) = bind_err (str_items (Suc k) rest) (\<lambda>more_strs. Inr (s # more_strs))"
| "str_items k (v # rest) =
     Inl (TypeError (py ''sequence item '' @ decimal k @ py '': expected str instance, ''
                     @ type_name v @ py '' found''))"

definition py_join :: "pystr \<Rightarrow> json list \<Rightarrow> py_error + pystr" where
  "py_join sep xs = bind_err (str_items 0 xs) (\<lambda>strs. Inr (join_with sep strs))"

record media_item =
  item_type :: pystr
  item_url :: json
  item_video_url :: json

record media =
  image_urls :: "json list"
  video_urls :: "json list"
  carousel_items :: "media_item list"

record thread_data =
  media_type :: json
  thread_caption :: json
  description :: json
  author :: json
  thread_media :: media
  thread_items_count :: nat

definition first_url :: "json \<Rightarrow> py_error + json" where
  "first_url versions = bind_err (first_item versions) (\<lambda>v. py_get v ''url'' JNull)"

definition candidates_of :: "json \<Rightarrow> py_error + json" where
  "candidates_of obj =
     bind_err (py_get obj ''image_versions2'' (JDict []))
       (\<lambda>img_versions.
          Inr (case img_versions of
                 JDict d \<Rightarrow> lookup d ''candidates'' (JList [])
               | _ \<Rightarrow> JList []))"

definition add_image :: "json \<Rightarrow> media \<Rightarrow> media" where
  "add_image u m = m\<lparr>image_urls := image_urls m @ [u]\<rparr>"

definition add_video :: "json \<Rightarrow> media \<Rightarrow> media" where
  "add_video u m = m\<lparr>video_urls := video_urls m @ [u]\<rparr>"

definition extract_image_media :: "json \<Rightarrow> media \<Rightarrow> py_error + media" where
  "extract_image_media post m =
     bind_err (candidates_of post)
       (\<lambda>candidates.
          if truthy candidates
          then bind_err (first_url candidates)
                 (\<lambda>u. Inr (if truthy u \<and> \<not> py_in u (image_urls m) then add_image u m else m))
          else Inr m)"

definition extract_video_media :: "json \<Rightarrow> media \<Rightarrow> py_error + media" where
  "extract_video_media post m =
     bind_err (py_get post ''video_versions'' (JList []))
       (\<lambda>video_versions.
          bind_err
            (if truthy video_versions
             then bind_err (first_url video_versions)
                    (\<lambda>u. Inr (if truthy u \<and> \<not> py_in u (video_urls m) then add_video u m else m))
             else Inr m)
            (\<lambda>m'. extract_image_media post m'))"

definition extract_text_post_media :: "json \<Rightarrow> json \<Rightarrow> media \<Rightarrow> py_error + media" where
  "extract_text_post_media post text_info m =
     (case text_info of
        JDict ti \<Rightarrow>
          (case lookup ti ''linked_inline_media'' (JDict []) of
             JDict linked \<Rightarrow>
               if linked = [] then Inr m
               else
                 bind_err
                   (let video_versions = lookup linked ''video_versions'' (JList [])
                    in if truthy video_versions
                       then bind_err (first_url video_versions)
                              (\<lambda>u. Inr (if truthy u then add_video u m else m))
                       else Inr m)
                   (\<lambda>m'.
                      let candidates =
                            (case lookup linked ''image_versions2'' (JDict []) of
                               JDict d \<Rightarrow> lookup d ''candidates'' (JList [])
                             | _ \<Rightarrow> JList [])
                      in if truthy candidates
                         then bind_err (first_url candidates)
                                (\<lambda>u. Inr (if truthy u then add_image u m' else m'))
                         else Inr m')
           | _ \<Rightarrow> Inr m)
      | _ \<Rightarrow> Inr m)"

fun carousel_loop :: "json list \<Rightarrow> media \<Rightarrow> py_error + media" where
  "carousel_loop [] m = Inr m"
| "carousel_loop (item # rest) m =
     bind_err (candidates_of item)
       (\<lambda>candidates.
          bind_err (if truthy candidates then first_url candidates else Inr JNull)
            (\<lambda>u.
               bind_err (py_get item ''video_versions'' (JList []))
                 (\<lambda>video_versions.
                    bind_err (if truthy video_versions then first_url video_versions else Inr JNull)
                      (\<lambda>video_url.
                         let media_item =
                               \<lparr>item_type = (if truthy video_versions then py ''video'' else py ''image''),
                                item_url = u, item_video_url = video_url\<rparr>;
                             m1 = m\<lparr>carousel_items := carousel_items m @ [media_item]\<rparr>;
                             m2 = (if truthy u then add_image u m1 else m1);
                             m3 = (if truthy video_url then add_video video_url m2 else m2)
                         in carousel_loop rest m3))))"

definition extract_carousel_media :: "json \<Rightarrow> media \<Rightarrow> py_error + media" where
  "extract_carousel_media post m =
     bind_err (py_get post ''carousel_media'' (JList []))
       (\<lambda>carousel. bind_err (py_iter carousel) (\<lambda>items. carousel_loop items m))"

definition extract_item_caption :: "json \<Rightarrow> py_error + json" where
  "extract_item_caption post =
     bind_err (py_get post ''caption'' JNull)
       (\<lambda>cap.
          Inr (case cap of
                 JDict c \<Rightarrow>
                   (let t = lookup c ''text'' (JStr []) in if truthy t then t else JNull)
               | JStr s \<Rightarrow> (if s \<noteq> [] then JStr s else JNull)
               | _ \<Rightarrow> JNull))"

definition fragment_texts :: "json list \<Rightarrow> json list" where
  "fragment_texts fragments =
     concat (map (\<lambda>f. case f of
                         JDict fd \<Rightarrow> [lookup fd ''plaintext'' (lookup fd ''text'' (JStr []))]
                       | _ \<Rightarrow> [])
                 fragments)"

definition extract_item_description :: "json \<Rightarrow> py_error + json" where
  "extract_item_description post =
     bind_err (py_get post ''text_post_app_info'' (JDict []))
       (\<lambda>text_info.
          case text_info of
            JDict ti \<Rightarrow>
              (case lookup ti ''text_fragments'' (JDict []) of
                 JDict frags \<Rightarrow>
                   bind_err (py_iter (lookup frags ''fragments'' (JList [])))
                     (\<lambda>fragments.
                        bind_err (py_join (py '' '') (filter truthy (fragment_texts fragments)))
                          (\<lambda>joined. Inr (if joined \<noteq> [] then JStr joined else JNull)))
               | _ \<Rightarrow> Inr JNull)
          | _ \<Rightarrow> Inr JNull)"

definition username_of :: "json \<Rightarrow> py_error + json" where
  "username_of item =
     bind_err (py_get item ''post'' (JDict []))
       (\<lambda>post.
          bind_err (py_get post ''user'' (JDict []))
            (\<lambda>user.
               Inr (case user of
                      JDict u \<Rightarrow> lookup u ''username'' (JStr [])
                    | _ \<Rightarrow> JStr [])))"

fun author_items_of :: "json \<Rightarrow> json list \<Rightarrow> py_error + json list" where
  "author_items_of author_username [] = Inr []"
| "author_items_of author_username (item # rest) =
     bind_err (username_of item)
       (\<lambda>username.
          bind_err (author_items_of author_username rest)
            (\<lambda>kept. Inr (if py_eq username author_username then item # kept else kept)))"

record parts =
  caption_parts :: "json list"
  description_parts :: "json list"
  collected :: media

definition collect_item :: "json \<Rightarrow> parts \<Rightarrow> py_error + parts" where
  "collect_item item acc =
     bind_err (py_get item ''post'' (JDict []))
       (\<lambda>post.
          bind_err (extract_item_caption post)
            (\<lambda>item_caption.
               bind_err (extract_item_description post)
                 (\<lambda>item_description.
                    let acc1 = (if truthy item_caption
                                then acc\<lparr>caption_parts := caption_parts acc @ [item_caption]\<rparr>
                                else acc);
                        acc2 = (if truthy item_description
                                then acc1\<lparr>description_parts := description_parts acc1 @ [item_description]\<rparr>
                                else acc1)
                    in bind_err (py_get post ''media_type'' JNull)
                         (\<lambda>mt.
                            bind_err (py_get post ''text_post_app_info'' (JDict []))
                              (\<lambda>text_info.
                                 bind_err
                                   (if py_eq mt (JInt 8) then extract_carousel_media post (collected acc2)
                                    else if py_eq mt (JInt 2) then extract_video_media post (collected acc2)
                                    else if py_eq mt (JInt 1) then extract_image_media post (collected acc2)
                                    else if py_eq mt (JInt 19)
                                    then extract_text_post_media post text_info (collected acc2)
                                    else bind_err (extract_image_media post (collected acc2))
                                           (\<lambda>m'. extract_video_media post m'))
                                   (\<lambda>m'. Inr (acc2\<lparr>collected := m'\<rparr>)))))))"

fun collect_items :: "json list \<Rightarrow> parts \<Rightarrow> py_error + parts" where
  "collect_items [] acc = Inr acc"
| "collect_items (item # rest) acc = bind_err (collect_item item acc) (\<lambda>acc'. collect_items rest acc')"

definition merge_parts :: "(json \<Rightarrow> pystr) \<Rightarrow> nat \<Rightarrow> json list \<Rightarrow> json" where
  "merge_parts str_of total_items ps =
     (if total_items > 1 \<and> length ps > 1
      then JStr (join_with (10 # py ''---'' @ [10])
                   (map (\<lambda>(i, text). py ''['' @ decimal (i + 1) @ py ''/'' @ decimal total_items @ py ''] ''
                                        @ py_format str_of text)
                        (enumerate 0 ps)))
      else (case ps of [] \<Rightarrow> JNull | p # _ \<Rightarrow> p))"

definition empty_media :: media where
  "empty_media = \<lparr>image_urls = [], video_urls = [], carousel_items = []\<rparr>"

definition aggregate :: "(json \<Rightarrow> pystr) \<Rightarrow> json \<Rightarrow> json \<Rightarrow> json list \<Rightarrow> py_error + thread_data" where
  "aggregate str_of first_media_type author_username author_items =
     (let total_items = length author_items in
      bind_err (collect_items author_items
                  \<lparr>caption_parts = [], description_parts = [], collected = empty_media\<rparr>)
        (\<lambda>acc.
           let cap = merge_parts str_of total_items (caption_parts acc);
               des = merge_parts str_of total_items (description_parts acc)
           in Inr \<lparr>media_type = first_media_type,
                   thread_caption = cap,
                   description = (if \<not> truthy des \<and> truthy cap then cap else des),
                   author = author_username,
                   thread_media = collected acc,
                   thread_items_count = total_items\<rparr>))"

definition extract_from_thread_node :: "(json \<Rightarrow> pystr) \<Rightarrow> json \<Rightarrow> py_error + thread_data" where
  "extract_from_thread_node str_of node =
     bind_err (py_get node ''thread_items'' (JList []))
       (\<lambda>thread_items.
          if \<not> truthy thread_items
          then Inr \<lparr>media_type = JNull, thread_caption = JNull, description = JNull, author = JNull,
                    thread_media = empty_media, thread_items_count = 0\<rparr>
          else
            bind_err (first_item thread_items)
              (\<lambda>first.
                 bind_err (py_get first ''post'' (JDict []))
                   (\<lambda>first_post.
                      bind_err (py_get first_post ''user'' (JDict []))
                        (\<lambda>first_user.
                           let author_username =
                                 (case first_user of
                                    JDict u \<Rightarrow> lookup u ''username'' (JStr [])
                                  | _ \<Rightarrow> JStr [])
                           in bind_err (py_iter thread_items)
                                (\<lambda>items.
                                   bind_err (author_items_of author_username items)
                                     (\<lambda>author_items.
                                        bind_err (py_get first_post ''media_type'' JNull)
                                          (\<lambda>mt. aggregate str_of mt author_username author_items)))))))"

text \<open>
  For stating the properties: whether an item is by the given author, and the user name
  read from a \<open>user\<close> value.
\<close>

definition same_author :: "json \<Rightarrow> json \<Rightarrow> bool" where
  "same_author author_username item =
     (case username_of item of Inl e \<Rightarrow> False | Inr username \<Rightarrow> py_eq username author_username)"

definition username_in :: "json \<Rightarrow> json" where
  "username_in user = (case user of JDict u \<Rightarrow> lookup u ''username'' (JStr []) | _ \<Rightarrow> JStr [])"

text \<open>
  Example inputs: a thread of four text posts by \<open>alice\<close>, \<open>alice\<close>, \<open>bob\<close>, \<open>alice\<close>, and the
  same thread without the third post.
\<close>

definition thread_item :: "pystr \<Rightarrow> pystr \<Rightarrow> json" where
  "thread_item username text =
     JDict [(py ''post'',
             JDict [(py ''user'', JDict [(py ''username'', JStr username)]),
                    (py ''caption'', JDict [(py ''text'', JStr text)]),
                    (py ''media_type'', JInt 19)])]"

definition demo_thread :: json where
  "demo_thread =
     JDict [(py ''thread_items'',
             JList [thread_item (py ''alice'') (py ''one''), thread_item (py ''alice'') (py ''two''),
                    thread_item (py ''bob'') (py ''three''), thread_item (py ''alice'') (py ''four'')])]"

definition demo_kept :: json where
  "demo_kept =
     JDict [(py ''thread_items'',
             JList [thread_item (py ''alice'') (py ''one''), thread_item (py ''alice'') (py ''two''),
                    thread_item (py ''alice'') (py ''four'')])]"

section \<open>Thread-node search (\<open>InstagramDownloader._find_thread_node\<close>)\<close>

text \<open>
  The searched value is a Python object graph: a dictionary or a list holds references, so
  that a container may contain itself. A value \<open>hval\<close> is therefore a scalar or the address
  \<open>HRef a\<close> of a container, and the \<open>heap\<close> gives the container at each address: a list of
  values, or a dictionary as its items in insertion order. \<open>heap_type_name\<close> is
  \<^verbatim>\<open>type(v).__name__\<close>.

  \<open>is_thread_node h obj\<close> is the test at the head of the dictionary branch:
  \<^verbatim>\<open>"thread_items" in obj\<close>, the value is a non-empty list, and
  \<^verbatim>\<open>items[0].get("post", {})\<close> is a dictionary with the key \<open>media_type\<close>
  (\<open>has_media_type\<close>). A first item that is not a dictionary has no method \<open>get\<close>: the
  call raises \<open>AttributeError\<close>, which nothing in the method catches.

  \<open>first_found f vs\<close> is the loop
  \<^verbatim>\<open>for v in vs: result = f(v); if result: return result\<close> followed by the final
  \<^verbatim>\<open>return None\<close>. A result of the search is \<open>None\<close> or a dictionary holding the key
  \<open>thread_items\<close>, which is not empty and so true in the test \<^verbatim>\<open>if result\<close>. The
  result of the search is the address of the dictionary found. The recursion is not
  structural, since the heap may be cyclic, so the search is a partial function whose value
  \<open>None\<close> stands for a call that does not return; the lemma \<open>first_found_mono\<close> is the
  monotonicity of the loop that this definition needs.
\<close>

datatype hval = HNull | HBool bool | HInt int | HFloat pyfloat | HStr pystr | HRef nat

datatype hobj = HList "hval list" | HDict "(pystr \<times> hval) list"

type_synonym heap = "nat \<Rightarrow> hobj"

fun heap_type_name :: "heap \<Rightarrow> hval \<Rightarrow> pystr" where
  "heap_type_name h HNull = py ''NoneType''"
| "heap_type_name h (HBool _) = py ''bool''"
| "heap_type_name h (HInt _) = py ''int''"
| "heap_type_name h (HFloat _) = py ''float''"
| "heap_type_name h (HStr _) = py ''str''"
| "heap_type_name h (HRef a) = (case h a of HList _ \<Rightarrow> py ''list'' | HDict _ \<Rightarrow> py ''dict'')"

definition has_media_type :: "heap \<Rightarrow> hval \<Rightarrow> bool" where
  "has_media_type h post =
     (case post of
        HRef c \<Rightarrow> (case h c of HDict pd \<Rightarrow> map_of pd (py ''media_type'') \<noteq> None | HList _ \<Rightarrow> False)
      | _ \<Rightarrow> False)"

definition is_thread_node :: "heap \<Rightarrow> (pystr \<times> hval) list \<Rightarrow> py_error + bool" where
  "is_thread_node h obj =
     (case map_of obj (py ''thread_items'') of
        None \<Rightarrow> Inr False
      | Some items \<Rightarrow>
          (case items of
             HRef a \<Rightarrow>
               (case h a of
                  HList (first # _) \<Rightarrow>
                    (case (case first of HRef b \<Rightarrow> (case h b of HDict fd \<Rightarrow> Some fd | HList _ \<Rightarrow> None)
                                       | _ \<Rightarrow> None) of
                       None \<Rightarrow>
                         Inl (AttributeError
                                (py [CHR 0x27] @ heap_type_name h first
                                 @ py ([CHR 0x27] @ '' object has no attribute '' @ [CHR 0x27] @ ''get''
                                       @ [CHR 0x27])))
                     | Some fd \<Rightarrow>
                         Inr (case map_of fd (py ''post'') of
                                None \<Rightarrow> False
                              | Some post \<Rightarrow> has_media_type h post))
                | _ \<Rightarrow> Inr False)
           | _ \<Rightarrow> Inr False))"

fun first_found ::
  "(hval \<Rightarrow> (py_error + nat option) option) \<Rightarrow> hval list \<Rightarrow> (py_error + nat option) option" where
  "first_found f [] = Some (Inr None)"
| "first_found f (v # vs) =
     Option.bind (f v)
       (\<lambda>r. case r of
               Inl e \<Rightarrow> Some (Inl e)
             | Inr (Some a) \<Rightarrow> Some (Inr (Some a))
             | Inr None \<Rightarrow> first_found f vs)"

lemma first_found_mono [partial_function_mono]:
  assumes "\<And>v. mono_option (\<lambda>g. F g v)"
  shows "mono_option (\<lambda>g. first_found (F g) vs)"
proof (induction vs)
  case Nil
  show ?case by (simp add: option.const_mono)
next
  case (Cons v vs)
  show ?case
    unfolding first_found.simps
  proof (rule bind_mono [OF assms])
    fix r :: "py_error + nat option"
    show "mono_option (\<lambda>g. case r of
               Inl e \<Rightarrow> Some (Inl e)
             | Inr (Some a) \<Rightarrow> Some (Inr (Some a))
             | Inr None \<Rightarrow> first_found (F g) vs)"
    proof (cases r)
      case (Inl e)
      then show ?thesis by (simp add: option.const_mono)
    next
      case (Inr found)
      then show ?thesis using Cons by (cases found) (simp_all add: option.const_mono)
    qed
  qed
qed

partial_function (option) find_thread_node ::
  "heap \<Rightarrow> hval \<Rightarrow> nat \<Rightarrow> (py_error + nat option) option" where
  "find_thread_node h obj depth =
     (if depth > 20 then Some (Inr None)
      else (case obj of
              HRef a \<Rightarrow>
                (case h a of
                   HDict d \<Rightarrow>
                     (case is_thread_node h d of
                        Inl e \<Rightarrow> Some (Inl e)
                      | Inr found_here \<Rightarrow>
                          if found_here then Some (Inr (Some a))
                          else first_found (\<lambda>val. find_thread_node h val (depth + 1)) (map snd d))
                 | HList xs \<Rightarrow>
                     first_found (\<lambda>item. find_thread_node h item (depth + 1)) (take 10 xs))
            | _ \<Rightarrow> Some (Inr None)))"

text \<open>
  \<open>truncate_lists h\<close> is the heap \<open>h\<close> with every list cut after its tenth element.
  \<open>cyclic_heap\<close> holds a dictionary both of whose values are the dictionary itself. In
  \<open>thread_heap\<close> a thread node is at address \<open>0\<close> (its item list at \<open>1\<close>, the first
  item at \<open>2\<close>, the post at \<open>3\<close>), and at every other address a list of eleven elements
  whose last one is the thread node.
\<close>

definition truncate_lists :: "heap \<Rightarrow> heap" where
  "truncate_lists h = (\<lambda>a. case h a of HList xs \<Rightarrow> HList (take 10 xs) | HDict d \<Rightarrow> HDict d)"

definition cyclic_heap :: heap where
  "cyclic_heap = (\<lambda>a. HDict [(py ''self'', HRef 0), (py ''items'', HRef 0)])"

definition thread_heap :: heap where
  "thread_heap =
     (\<lambda>a. if a = 0 then HDict [(py ''thread_items'', HRef 1)]
          else if a = 1 then HList [HRef 2]
          else if a = 2 then HDict [(py ''post'', HRef 3)]
          else if a = 3 then HDict [(py ''media_type'', HInt 1)]
          else HList (replicate 10 HNull @ [HRef 0]))"

chapter \<open>Properties\<close>

section \<open>Dedup registry\<close>

lemma evict_small: "card S \<le> MAX_PROCESSED_IDS \<Longrightarrow> evict S = S"
  by (simp add: evict_def)

lemma removed_is_take:
  assumes "finite S"
  shows "S - set (drop k (sorted_list_of_set S)) = set (take k (sorted_list_of_set S))"
proof -
  let ?xs = "sorted_list_of_set S"
  have d: "distinct (take k ?xs @ drop k ?xs)" by simp
  have s: "set (take k ?xs) \<union> set (drop k ?xs) = S"
    using assms by (metis append_take_drop_id set_append set_sorted_list_of_set)
  from d have "set (take k ?xs) \<inter> set (drop k ?xs) = {}" by (simp only: distinct_append)
  with s show ?thesis by blast
qed

lemma take_below_drop:
  assumes "x \<in> set (take k (sorted_list_of_set (S::int set)))"
      and "y \<in> set (drop k (sorted_list_of_set S))"
  shows "x < y"
proof -
  let ?xs = "sorted_list_of_set S"
  have "sorted_wrt (<) ?xs" by (simp add: strict_sorted_iff)
  then have "sorted_wrt (<) (take k ?xs @ drop k ?xs)" by (simp only: append_take_drop_id)
  then show ?thesis using assms by (simp only: sorted_wrt_append)
qed

lemma card_take_sorted:
  assumes "finite S" "k \<le> card S"
  shows "card (set (take k (sorted_list_of_set S))) = k"
proof -
  have "distinct (take k (sorted_list_of_set S))" by simp
  then have "card (set (take k (sorted_list_of_set S))) = length (take k (sorted_list_of_set S))"
    by (rule distinct_card)
  then show ?thesis using assms by simp
qed

lemma card_drop_sorted:
  assumes "finite S"
  shows "card (set (drop k (sorted_list_of_set S))) = card S - k"
proof -
  have "distinct (drop k (sorted_list_of_set S))" by simp
  then have "card (set (drop k (sorted_list_of_set S))) = length (drop k (sorted_list_of_set S))"
    by (rule distinct_card)
  then show ?thesis using assms by simp
qed

lemma card_evict:
  assumes "finite S"
  shows "card (evict S) =
    (if MAX_PROCESSED_IDS < card S then card S - MAX_PROCESSED_IDS div 2 else card S)"
  unfolding evict_def using card_drop_sorted [OF assms] by (simp only: if_distrib [of card] cong: if_cong)

lemma finite_evict: "finite S \<Longrightarrow> finite (evict S)"
  unfolding evict_def by (simp only: List.finite_set if_split) blast

lemma reachable_inv:
  "reachable r \<Longrightarrow> finite (processed_message_ids r) \<and> card (processed_message_ids r) \<le> MAX_PROCESSED_IDS"
proof (induction rule: reachable.induct)
  case reach_init
  show ?case by (simp add: initial_registry_def)
next
  case (reach_admit r message_id)
  let ?S = "insert message_id (processed_message_ids r)"
  have fin: "finite ?S" using reach_admit.IH by simp
  have c: "card ?S \<le> Suc MAX_PROCESSED_IDS"
    using reach_admit.IH by (simp add: card_insert_if)
  have "finite (evict ?S)" using fin by (rule finite_evict)
  moreover have "card (evict ?S) \<le> MAX_PROCESSED_IDS"
    using c unfolding card_evict [OF fin] MAX_PROCESSED_IDS_def by presburger
  ultimately show ?case using reach_admit.IH by (simp add: admit_def)
next
  case (reach_release r message_id)
  then show ?case by (simp add: release_def)
qed

lemma reachable_upto:
  "n \<le> MAX_PROCESSED_IDS \<Longrightarrow>
   reachable \<lparr>processed_message_ids = {1..int n}, processing_messages = {}\<rparr>"
proof (induction n)
  case 0
  have "reachable initial_registry" by (rule reach_init)
  then show ?case by (simp add: initial_registry_def)
next
  case (Suc n)
  let ?r = "\<lparr>processed_message_ids = {1..int n}, processing_messages = {}\<rparr>"
  let ?i = "int n + 1"
  have r: "reachable ?r" using Suc by simp
  have ins: "insert ?i {1..int n} = {1..?i}" by auto
  have "card {1..?i} \<le> MAX_PROCESSED_IDS" using Suc.prems by simp
  then have ev: "evict (insert ?i {1..int n}) = {1..?i}"
    unfolding ins by (rule evict_small)
  have "snd (admit ?i ?r) = \<lparr>processed_message_ids = {1..?i}, processing_messages = {?i}\<rparr>"
    unfolding admit_def using ev by simp
  then have "release ?i (snd (admit ?i ?r)) =
      \<lparr>processed_message_ids = {1..?i}, processing_messages = {}\<rparr>"
    by (simp add: release_def)
  moreover have "reachable (release ?i (snd (admit ?i ?r)))"
    by (rule reach_release, rule reach_admit, rule r)
  ultimately show ?case by (simp add: add.commute)
qed

lemma evict_insert_below_capacity:
  assumes "card S < MAX_PROCESSED_IDS"
  shows "evict (insert message_id S) = insert message_id S"
proof (cases "finite S")
  case True
  then have "card (insert message_id S) \<le> Suc (card S)" by (simp add: card_insert_if)
  with assms have "card (insert message_id S) \<le> MAX_PROCESSED_IDS" by simp
  then show ?thesis by (rule evict_small)
next
  case False
  then have "card (insert message_id S) = 0" by simp
  then have "card (insert message_id S) \<le> MAX_PROCESSED_IDS" by simp
  then show ?thesis by (rule evict_small)
qed

lemma admit_fresh:
  assumes "message_id \<notin> processed_message_ids r" and "message_id \<notin> processing_messages r"
  shows "admit message_id r =
           (Proceed,
            \<lparr>processed_message_ids = evict (insert message_id (processed_message_ids r)),
             processing_messages = insert message_id (processing_messages r)\<rparr>)"
  using assms by (simp add: admit_def)

lemma admit_completed:
  "message_id \<in> processed_message_ids (q::registry) \<Longrightarrow>
   admit message_id q = (AlreadyProcessed, q)"
  by (simp add: admit_def)

lemma admit_in_flight:
  "message_id \<notin> processed_message_ids (q::registry) \<Longrightarrow>
   message_id \<in> processing_messages q \<Longrightarrow> admit message_id q = (AlreadyProcessing, q)"
  by (simp add: admit_def)

text \<open>
  Claim C1 (as amended). For an identifier that is in neither set, admission yields
  \<open>Proceed\<close> and marks the identifier in both sets at once (the completed set then goes
  through the eviction step). While fewer than \<open>MAX_PROCESSED_IDS\<close> identifiers are held
  nothing is evicted, and then: the state after admission is the old one with the
  identifier added to both sets; an immediately following admission yields
  \<open>AlreadyProcessed\<close> (the completed-set test comes first) and changes nothing;
  \<open>release\<close> removes the identifier from the in-flight set only; and an admission after
  \<open>release\<close> yields \<open>AlreadyProcessed\<close> and changes nothing. \<open>AlreadyProcessing\<close> is the
  answer, in any state, for an identifier that is in the in-flight set and not in the
  completed set.
\<close>

theorem admit_twice_then_release:
  assumes "message_id \<notin> processed_message_ids r"
      and "message_id \<notin> processing_messages r"
  shows "admit message_id r =
           (Proceed,
            \<lparr>processed_message_ids = evict (insert message_id (processed_message_ids r)),
             processing_messages = insert message_id (processing_messages r)\<rparr>)
       \<and> (card (processed_message_ids r) < MAX_PROCESSED_IDS \<longrightarrow>
            snd (admit message_id r) =
              \<lparr>processed_message_ids = insert message_id (processed_message_ids r),
               processing_messages = insert message_id (processing_messages r)\<rparr>
          \<and> admit message_id (snd (admit message_id r)) =
              (AlreadyProcessed, snd (admit message_id r))
          \<and> release message_id (snd (admit message_id r)) =
              \<lparr>processed_message_ids = insert message_id (processed_message_ids r),
               processing_messages = processing_messages r\<rparr>
          \<and> admit message_id (release message_id (snd (admit message_id r))) =
              (AlreadyProcessed, release message_id (snd (admit message_id r))))
       \<and> (\<forall>q::registry.
              message_id \<notin> processed_message_ids q \<and> message_id \<in> processing_messages q
              \<longrightarrow> admit message_id q = (AlreadyProcessing, q))"
proof (intro conjI impI allI)
  show first: "admit message_id r =
           (Proceed,
            \<lparr>processed_message_ids = evict (insert message_id (processed_message_ids r)),
             processing_messages = insert message_id (processing_messages r)\<rparr>)"
    using assms by (rule admit_fresh)
  assume "card (processed_message_ids r) < MAX_PROCESSED_IDS"
  then have keep: "evict (insert message_id (processed_message_ids r))
      = insert message_id (processed_message_ids r)"
    by (rule evict_insert_below_capacity)
  show after: "snd (admit message_id r) =
              \<lparr>processed_message_ids = insert message_id (processed_message_ids r),
               processing_messages = insert message_id (processing_messages r)\<rparr>"
    unfolding first keep by simp
  have "message_id \<in> processed_message_ids (snd (admit message_id r))"
    unfolding after by simp
  then show "admit message_id (snd (admit message_id r)) =
      (AlreadyProcessed, snd (admit message_id r))"
    by (rule admit_completed)
  show released: "release message_id (snd (admit message_id r)) =
              \<lparr>processed_message_ids = insert message_id (processed_message_ids r),
               processing_messages = processing_messages r\<rparr>"
    unfolding after using assms(2) by (simp add: release_def)
  have "message_id \<in> processed_message_ids (release message_id (snd (admit message_id r)))"
    unfolding released by simp
  then show "admit message_id (release message_id (snd (admit message_id r))) =
      (AlreadyProcessed, release message_id (snd (admit message_id r)))"
    by (rule admit_completed)
next
  fix q :: registry
  assume "message_id \<notin> processed_message_ids q \<and> message_id \<in> processing_messages q"
  then show "admit message_id q = (AlreadyProcessing, q)"
    by (simp add: admit_in_flight)
qed

lemma admit_7_initial:
  "admit 7 initial_registry =
     (Proceed, \<lparr>processed_message_ids = {7}, processing_messages = {7}\<rparr>)"
  by (simp add: admit_def initial_registry_def evict_def MAX_PROCESSED_IDS_def)

theorem admit_twice_then_release_witness:
  "7 \<notin> processed_message_ids initial_registry
   \<and> 7 \<notin> processing_messages initial_registry
   \<and> card (processed_message_ids initial_registry) < MAX_PROCESSED_IDS
   \<and> admit 7 initial_registry =
       (Proceed, \<lparr>processed_message_ids = {7}, processing_messages = {7}\<rparr>)
   \<and> admit 7 (snd (admit 7 initial_registry)) =
       (AlreadyProcessed, \<lparr>processed_message_ids = {7}, processing_messages = {7}\<rparr>)
   \<and> release 7 (snd (admit 7 initial_registry)) =
       \<lparr>processed_message_ids = {7}, processing_messages = {}\<rparr>
   \<and> admit 7 (release 7 (snd (admit 7 initial_registry))) =
       (AlreadyProcessed, \<lparr>processed_message_ids = {7}, processing_messages = {}\<rparr>)
   \<and> 7 \<notin> processed_message_ids \<lparr>processed_message_ids = {}, processing_messages = {7}\<rparr>
   \<and> 7 \<in> processing_messages \<lparr>processed_message_ids = {}, processing_messages = {7}\<rparr>
   \<and> admit 7 \<lparr>processed_message_ids = {}, processing_messages = {7}\<rparr> =
       (AlreadyProcessing, \<lparr>processed_message_ids = {}, processing_messages = {7}\<rparr>)"
proof -
  have a: "7 \<notin> processed_message_ids initial_registry"
    and b: "7 \<notin> processing_messages initial_registry"
    and c: "card (processed_message_ids initial_registry) < MAX_PROCESSED_IDS"
    by (simp_all add: initial_registry_def MAX_PROCESSED_IDS_def)
  have d: "7 \<notin> processed_message_ids \<lparr>processed_message_ids = {}, processing_messages = {7}\<rparr>
         \<and> 7 \<in> processing_messages \<lparr>processed_message_ids = {}, processing_messages = {7}\<rparr>"
    by simp
  note t = admit_twice_then_release [OF a b]
  from t c have e: "admit 7 (snd (admit 7 initial_registry)) =
        (AlreadyProcessed, snd (admit 7 initial_registry))"
      and f: "release 7 (snd (admit 7 initial_registry)) =
        \<lparr>processed_message_ids = insert 7 (processed_message_ids initial_registry),
         processing_messages = processing_messages initial_registry\<rparr>"
      and g: "admit 7 (release 7 (snd (admit 7 initial_registry))) =
        (AlreadyProcessed, release 7 (snd (admit 7 initial_registry)))"
    by blast+
  from t d have h: "admit 7 \<lparr>processed_message_ids = {}, processing_messages = {7}\<rparr> =
       (AlreadyProcessing, \<lparr>processed_message_ids = {}, processing_messages = {7}\<rparr>)"
    by blast
  from f have f': "release 7 (snd (admit 7 initial_registry)) =
       \<lparr>processed_message_ids = {7}, processing_messages = {}\<rparr>"
    by (simp add: initial_registry_def)
  show ?thesis
    using a b c d e g h f' by (simp add: admit_7_initial)
qed

text \<open>
  Claim C1 as stated fails on the empty registry: the second of two immediate admissions of
  message 7 is answered by the completed-set test.
\<close>

theorem second_admit_not_AlreadyProcessing:
  "fst (admit 7 initial_registry) = Proceed
   \<and> fst (admit 7 (snd (admit 7 initial_registry))) = AlreadyProcessed
   \<and> fst (admit 7 (snd (admit 7 initial_registry))) \<noteq> AlreadyProcessing"
  by (simp add: admit_7_initial) (simp add: admit_def)

text \<open>
  Claim C2. When the completed set holds more than \<open>MAX_PROCESSED_IDS\<close> identifiers, the
  eviction step removes exactly the \<open>MAX_PROCESSED_IDS div 2\<close> numerically lowest ones
  (every removed identifier is below every retained one); a set within the capacity is
  left unchanged; and in every state the handler can reach, the set after the eviction
  step, and the set held between messages, has at most \<open>MAX_PROCESSED_IDS\<close> elements.
\<close>

theorem eviction_lowest_half:
  "(MAX_PROCESSED_IDS < card S \<longrightarrow>
        S - evict S = set (take (MAX_PROCESSED_IDS div 2) (sorted_list_of_set S))
      \<and> card (S - evict S) = MAX_PROCESSED_IDS div 2
      \<and> (\<forall>x \<in> S - evict S. \<forall>y \<in> evict S. x < y))
   \<and> (card S \<le> MAX_PROCESSED_IDS \<longrightarrow> evict S = S)
   \<and> (reachable r \<longrightarrow>
        card (evict (insert message_id (processed_message_ids r))) \<le> MAX_PROCESSED_IDS
      \<and> card (processed_message_ids r) \<le> MAX_PROCESSED_IDS)"
proof (intro conjI impI)
  assume big: "MAX_PROCESSED_IDS < card S"
  then have "0 < card S" by simp
  then have fin: "finite S" by (rule card_ge_0_finite)
  have ev: "evict S = set (drop (MAX_PROCESSED_IDS div 2) (sorted_list_of_set S))"
    using big by (simp add: evict_def)
  show rem: "S - evict S = set (take (MAX_PROCESSED_IDS div 2) (sorted_list_of_set S))"
    unfolding ev using fin by (rule removed_is_take)
  have "MAX_PROCESSED_IDS div 2 \<le> card S" using big by simp
  then show "card (S - evict S) = MAX_PROCESSED_IDS div 2"
    unfolding rem using fin card_take_sorted by blast
  show "\<forall>x \<in> S - evict S. \<forall>y \<in> evict S. x < y"
    unfolding rem unfolding ev using take_below_drop by blast
next
  assume "card S \<le> MAX_PROCESSED_IDS"
  then show "evict S = S" by (rule evict_small)
next
  assume r: "reachable r"
  let ?S = "insert message_id (processed_message_ids r)"
  have "reachable (snd (admit message_id r))" using r by (rule reach_admit)
  have inv: "finite (processed_message_ids r) \<and> card (processed_message_ids r) \<le> MAX_PROCESSED_IDS"
    using r by (rule reachable_inv)
  then have fin: "finite ?S" by simp
  have c: "card ?S \<le> Suc MAX_PROCESSED_IDS" using inv by (simp add: card_insert_if)
  show "card (evict ?S) \<le> MAX_PROCESSED_IDS"
    using c unfolding card_evict [OF fin] MAX_PROCESSED_IDS_def by presburger
  show "card (processed_message_ids r) \<le> MAX_PROCESSED_IDS" using inv by simp
qed

theorem eviction_lowest_half_witness:
  "MAX_PROCESSED_IDS < card {1..1001::int}
   \<and> card ({1..1001::int} - evict {1..1001}) = MAX_PROCESSED_IDS div 2
   \<and> card {1..5::int} \<le> MAX_PROCESSED_IDS
   \<and> evict {1..5} = {1..5}
   \<and> reachable \<lparr>processed_message_ids = {1..1000}, processing_messages = {}\<rparr>
   \<and> card (evict (insert 1001 (processed_message_ids
        \<lparr>processed_message_ids = {1..1000}, processing_messages = {}\<rparr>))) \<le> MAX_PROCESSED_IDS"
proof -
  have big: "MAX_PROCESSED_IDS < card {1..1001::int}" by (simp add: MAX_PROCESSED_IDS_def)
  have small: "card {1..5::int} \<le> MAX_PROCESSED_IDS" by (simp add: MAX_PROCESSED_IDS_def)
  have "reachable \<lparr>processed_message_ids = {1..int 1000}, processing_messages = {}\<rparr>"
    by (rule reachable_upto) (simp add: MAX_PROCESSED_IDS_def)
  then have reach: "reachable \<lparr>processed_message_ids = {1..1000}, processing_messages = {}\<rparr>"
    by simp
  from big small reach show ?thesis
    using eviction_lowest_half [of "{1..1001}"]
          eviction_lowest_half [of "{1..5}"]
          eviction_lowest_half [of _ "\<lparr>processed_message_ids = {1..1000}, processing_messages = {}\<rparr>" 1001]
    by blast
qed

section \<open>Link classification\<close>

lemma in_lit: "r \<in> set (lit p u) \<longleftrightarrow> u = py p @ r"
  by (auto simp: lit_def py_def) (metis append_take_drop_id length_map)+

lemma in_opt: "r \<in> set (opt m u) \<longleftrightarrow> r \<in> set (m u) \<or> r = u"
  by (auto simp: opt_def)

lemma in_alt: "r \<in> set (alt ms u) \<longleftrightarrow> (\<exists>m \<in> set ms. r \<in> set (m u))"
  by (auto simp: alt_def)

lemma in_seq: "r \<in> set (seq a b u) \<longleftrightarrow> (\<exists>v \<in> set (a u). r \<in> set (b v))"
  by (auto simp: seq_def)

lemma in_seqs_Nil: "r \<in> set (seqs [] u) \<longleftrightarrow> r = u"
  by (simp add: seqs_def)

lemma in_seqs_Cons: "r \<in> set (seqs (m # ms) u) \<longleftrightarrow> (\<exists>v \<in> set (m u). r \<in> set (seqs ms v))"
  by (simp add: seqs_def in_seq)

lemma re_match_iff: "re_match m u \<longleftrightarrow> (\<exists>r. r \<in> set (m u))"
  by (cases "m u") (auto simp: re_match_def)

lemma set_seqs_Cons: "set (seqs (m # ms) u) = (\<Union>v \<in> set (m u). set (seqs ms v))"
  by (simp add: seqs_def seq_def)

lemma in_seqs_append:
  "r \<in> set (seqs (xs @ ys) u) \<longleftrightarrow> (\<exists>v \<in> set (seqs xs u). r \<in> set (seqs ys v))"
proof (induction xs arbitrary: u)
  case Nil
  show ?case by (simp add: seqs_def)
next
  case (Cons a xs)
  show ?case by (simp add: set_seqs_Cons Cons.IH)
qed

lemma in_host_prefix:
  "v \<in> set (seqs host_prefix u) \<longleftrightarrow>
     u = py ''http://instagram.com/'' @ v \<or> u = py ''http://www.instagram.com/'' @ v
   \<or> u = py ''https://instagram.com/'' @ v \<or> u = py ''https://www.instagram.com/'' @ v"
  unfolding host_prefix_def in_seqs_Cons in_seqs_Nil Bex_def in_lit in_opt
  by (auto simp: py_def)

lemma host_prefix_unique:
  assumes "v \<in> set (seqs host_prefix u)" and "w \<in> set (seqs host_prefix u)"
  shows "v = w"
proof -
  from assms(1) consider
      "u = py ''http://instagram.com/'' @ v" | "u = py ''http://www.instagram.com/'' @ v"
    | "u = py ''https://instagram.com/'' @ v" | "u = py ''https://www.instagram.com/'' @ v"
    unfolding in_host_prefix by blast
  then show ?thesis
  proof cases
    case 1 with assms(2) show ?thesis unfolding in_host_prefix by (simp add: py_def)
  next
    case 2 with assms(2) show ?thesis unfolding in_host_prefix by (simp add: py_def)
  next
    case 3 with assms(2) show ?thesis unfolding in_host_prefix by (simp add: py_def)
  next
    case 4 with assms(2) show ?thesis unfolding in_host_prefix by (simp add: py_def)
  qed
qed

lemma reel_split:
  "re_match INSTAGRAM_REEL_PATTERN u \<longleftrightarrow>
   (\<exists>v \<in> set (seqs host_prefix u). \<exists>r. r \<in> set (seqs reel_tail v))"
proof -
  have eq: "[lit ''http'', opt (lit ''s''), lit ''://'', opt (lit ''www.''), lit ''instagram.com/'',
             alt [lit ''reel'', lit ''reels'', lit ''tv''], lit ''/'', plus_class shortcode_char]
     = host_prefix @ reel_tail"
    by (simp add: host_prefix_def reel_tail_def)
  show ?thesis unfolding re_match_iff INSTAGRAM_REEL_PATTERN_def eq in_seqs_append by blast
qed

lemma post_split:
  "re_match INSTAGRAM_POST_PATTERN u \<longleftrightarrow>
   (\<exists>v \<in> set (seqs host_prefix u). \<exists>r. r \<in> set (seqs post_tail v))"
proof -
  have eq: "[lit ''http'', opt (lit ''s''), lit ''://'', opt (lit ''www.''), lit ''instagram.com/'',
             lit ''p'', lit ''/'', plus_class shortcode_char]
     = host_prefix @ post_tail"
    by (simp add: host_prefix_def post_tail_def)
  show ?thesis unfolding re_match_iff INSTAGRAM_POST_PATTERN_def eq in_seqs_append by blast
qed

lemma share_split:
  "re_match INSTAGRAM_SHARE_PATTERN u \<longleftrightarrow>
   (\<exists>v \<in> set (seqs host_prefix u). \<exists>r. r \<in> set (seqs share_tail v))"
proof -
  have eq: "[lit ''http'', opt (lit ''s''), lit ''://'', opt (lit ''www.''), lit ''instagram.com/'',
             lit ''share'', lit ''/'', plus_class shortcode_char]
     = host_prefix @ share_tail"
    by (simp add: host_prefix_def share_tail_def)
  show ?thesis unfolding re_match_iff INSTAGRAM_SHARE_PATTERN_def eq in_seqs_append by blast
qed

lemma reel_tail_hd:
  "r \<in> set (seqs reel_tail v) \<Longrightarrow> hd v = 114 \<or> hd v = 116"
  by (auto simp: reel_tail_def in_seqs_Cons in_seqs_Nil in_lit in_alt py_def)

lemma post_tail_hd: "r \<in> set (seqs post_tail v) \<Longrightarrow> hd v = 112"
  by (auto simp: post_tail_def in_seqs_Cons in_seqs_Nil in_lit py_def)

lemma share_tail_hd: "r \<in> set (seqs share_tail v) \<Longrightarrow> hd v = 115"
  by (auto simp: share_tail_def in_seqs_Cons in_seqs_Nil in_lit py_def)

lemma reel_not_post:
  assumes "re_match INSTAGRAM_REEL_PATTERN u" shows "\<not> re_match INSTAGRAM_POST_PATTERN u"
proof
  assume "re_match INSTAGRAM_POST_PATTERN u"
  then obtain w r' where w: "w \<in> set (seqs host_prefix u)" "r' \<in> set (seqs post_tail w)"
    unfolding post_split by blast
  from assms obtain v r where v: "v \<in> set (seqs host_prefix u)" "r \<in> set (seqs reel_tail v)"
    unfolding reel_split by blast
  have "v = w" using v(1) w(1) by (rule host_prefix_unique)
  then show False using reel_tail_hd [OF v(2)] post_tail_hd [OF w(2)] by simp
qed

lemma reel_not_share:
  assumes "re_match INSTAGRAM_REEL_PATTERN u" shows "\<not> re_match INSTAGRAM_SHARE_PATTERN u"
proof
  assume "re_match INSTAGRAM_SHARE_PATTERN u"
  then obtain w r' where w: "w \<in> set (seqs host_prefix u)" "r' \<in> set (seqs share_tail w)"
    unfolding share_split by blast
  from assms obtain v r where v: "v \<in> set (seqs host_prefix u)" "r \<in> set (seqs reel_tail v)"
    unfolding reel_split by blast
  have "v = w" using v(1) w(1) by (rule host_prefix_unique)
  then show False using reel_tail_hd [OF v(2)] share_tail_hd [OF w(2)] by simp
qed

lemma post_not_share:
  assumes "re_match INSTAGRAM_POST_PATTERN u" shows "\<not> re_match INSTAGRAM_SHARE_PATTERN u"
proof
  assume "re_match INSTAGRAM_SHARE_PATTERN u"
  then obtain w r' where w: "w \<in> set (seqs host_prefix u)" "r' \<in> set (seqs share_tail w)"
    unfolding share_split by blast
  from assms obtain v r where v: "v \<in> set (seqs host_prefix u)" "r \<in> set (seqs post_tail v)"
    unfolding post_split by blast
  have "v = w" using v(1) w(1) by (rule host_prefix_unique)
  then show False using post_tail_hd [OF v(2)] share_tail_hd [OF w(2)] by simp
qed

text \<open>
  Claim C9. \<open>_get_url_type\<close> is a function of the URL alone. No URL is matched by both
  the reel pattern and the post pattern (the three patterns are pairwise disjoint), so
  each kind is returned exactly for the URLs its pattern matches, whatever the order of
  the tests, and \<open>unknown\<close> exactly for the URLs no pattern matches.
\<close>

theorem url_classification:
  "\<not> (re_match INSTAGRAM_REEL_PATTERN url \<and> re_match INSTAGRAM_POST_PATTERN url)
   \<and> (get_url_type url = ''reel'' \<longleftrightarrow> re_match INSTAGRAM_REEL_PATTERN url)
   \<and> (get_url_type url = ''post'' \<longleftrightarrow> re_match INSTAGRAM_POST_PATTERN url)
   \<and> (get_url_type url = ''share'' \<longleftrightarrow> re_match INSTAGRAM_SHARE_PATTERN url)
   \<and> (get_url_type url = ''unknown'' \<longleftrightarrow>
        \<not> re_match INSTAGRAM_REEL_PATTERN url \<and> \<not> re_match INSTAGRAM_POST_PATTERN url
        \<and> \<not> re_match INSTAGRAM_SHARE_PATTERN url)"
  using reel_not_post [of url] reel_not_share [of url] post_not_share [of url]
  by (auto simp: get_url_type_def)

lemmas matcher_defs =
  re_match_def INSTAGRAM_REEL_PATTERN_def INSTAGRAM_POST_PATTERN_def
  INSTAGRAM_SHARE_PATTERN_def seqs_def seq_def lit_def opt_def alt_def py_def plus_class_def
  shortcode_char_def

lemma reel_example: "re_match INSTAGRAM_REEL_PATTERN (py ''https://www.instagram.com/reel/Cx_1-a/?igsh=1'')"
  by (simp add: matcher_defs)

theorem url_classification_witness:
  "re_match INSTAGRAM_REEL_PATTERN (py ''https://www.instagram.com/reel/Cx_1-a/?igsh=1'')
   \<and> get_url_type (py ''https://www.instagram.com/reel/Cx_1-a/?igsh=1'') = ''reel''
   \<and> \<not> re_match INSTAGRAM_POST_PATTERN (py ''https://www.instagram.com/reel/Cx_1-a/?igsh=1'')"
  using url_classification [of "py ''https://www.instagram.com/reel/Cx_1-a/?igsh=1''"] reel_example
  by blast

section \<open>JSON repair\<close>

lemma not_space [simp]:
  "\<not> is_space 44" "\<not> is_space 125" "\<not> is_space 93" "\<not> is_space 47"
  by (simp_all add: is_space_def)

lemma rtc_Cons:
  "remove_trailing_commas (c # cs) =
     (if c = 44 \<and> trailing_closer cs then remove_trailing_commas (dropWhile is_space cs)
      else c # remove_trailing_commas cs)"
  by (cases "dropWhile is_space cs")
     (simp_all add: trailing_closer_def remove_trailing_commas.simps(2) del: dropWhile_eq_Nil_conv)

lemma slc_Cons:
  "strip_line_comments (c # cs) =
     (if c = 47 \<and> starts_slash cs then strip_line_comments (dropWhile (\<lambda>x. x \<noteq> 10) (tl cs))
      else c # strip_line_comments cs)"
  by (simp add: starts_slash_def strip_line_comments.simps(2))

declare remove_trailing_commas.simps(2) [simp del] strip_line_comments.simps(2) [simp del]

lemma trailing_closer_Cons:
  "trailing_closer (c # cs) = (if is_space c then trailing_closer cs else c = 125 \<or> c = 93)"
  by (simp add: trailing_closer_def)

lemma trailing_comma_Cons:
  "trailing_comma (c # cs) = (if is_space c then trailing_comma cs else c = 44 \<and> trailing_closer cs)"
  by (simp add: trailing_comma_def)

lemma trailing_closer_rtc:
  "trailing_closer (remove_trailing_commas cs) \<Longrightarrow> trailing_closer cs \<or> trailing_comma cs"
proof (induction cs rule: length_induct)
  case (1 cs)
  show ?case
  proof (cases cs)
    case Nil
    with 1 show ?thesis by simp
  next
    case (Cons c r)
    show ?thesis
    proof (cases "is_space c")
      case True
      then have "c \<noteq> 44" by auto
      with 1 Cons True show ?thesis
        by (simp add: rtc_Cons trailing_closer_Cons trailing_comma_Cons)
    next
      case False
      with 1 Cons show ?thesis
        by (auto simp: rtc_Cons trailing_closer_Cons trailing_comma_Cons split: if_splits)
    qed
  qed
qed

lemma no_double_comma_dropWhile: "no_double_comma cs \<Longrightarrow> no_double_comma (dropWhile P cs)"
  by (induction cs) auto

lemma no_comment_dropWhile: "no_comment cs \<Longrightarrow> no_comment (dropWhile P cs)"
  by (induction cs) auto

lemma rtc_idem:
  "no_double_comma x \<Longrightarrow> remove_trailing_commas (remove_trailing_commas x) = remove_trailing_commas x"
proof (induction x rule: length_induct)
  case (1 x)
  show ?case
  proof (cases x)
    case Nil
    then show ?thesis by simp
  next
    case (Cons c cs)
    have nd: "no_double_comma cs" using 1(2) Cons by simp
    have IHcs: "remove_trailing_commas (remove_trailing_commas cs) = remove_trailing_commas cs"
      using 1(1) nd Cons by simp
    show ?thesis
    proof (cases "c = 44 \<and> trailing_closer cs")
      case True
      have "length (dropWhile is_space cs) < length x"
        using Cons length_dropWhile_le [of is_space cs] by simp
      moreover have "no_double_comma (dropWhile is_space cs)"
        using nd by (rule no_double_comma_dropWhile)
      ultimately have "remove_trailing_commas (remove_trailing_commas (dropWhile is_space cs))
          = remove_trailing_commas (dropWhile is_space cs)"
        using 1(1) by blast
      with True Cons show ?thesis by (simp add: rtc_Cons)
    next
      case False
      show ?thesis
      proof (cases "c = 44")
        case True
        with False have "\<not> trailing_closer cs" by simp
        moreover have "\<not> trailing_comma cs" using 1(2) Cons True by simp
        ultimately have "\<not> trailing_closer (remove_trailing_commas cs)"
          using trailing_closer_rtc by blast
        with False Cons IHcs show ?thesis by (auto simp: rtc_Cons)
      next
        case c: False
        with Cons IHcs show ?thesis by (auto simp: rtc_Cons)
      qed
    qed
  qed
qed

lemma starts_slash_rtc: "starts_slash (remove_trailing_commas cs) \<Longrightarrow> starts_slash cs"
proof (cases cs)
  case Nil
  then show "starts_slash (remove_trailing_commas cs) \<Longrightarrow> starts_slash cs" by simp
next
  case (Cons d ds)
  assume a: "starts_slash (remove_trailing_commas cs)"
  show "starts_slash cs"
  proof (cases "d = 44 \<and> trailing_closer ds")
    case True
    then obtain e es where e: "dropWhile is_space ds = e # es" "e = 125 \<or> e = 93"
      by (auto simp: trailing_closer_def split: list.splits)
    then have "remove_trailing_commas cs = e # remove_trailing_commas es"
      using True Cons by (auto simp: rtc_Cons)
    with a e show ?thesis by (auto simp: starts_slash_def)
  next
    case False
    with a Cons show ?thesis by (auto simp: rtc_Cons starts_slash_def split: if_splits)
  qed
qed

lemma no_comment_rtc: "no_comment x \<Longrightarrow> no_comment (remove_trailing_commas x)"
proof (induction x rule: length_induct)
  case (1 x)
  show ?case
  proof (cases x)
    case Nil
    then show ?thesis by simp
  next
    case (Cons c cs)
    have nc: "no_comment cs" using 1(2) Cons by simp
    show ?thesis
    proof (cases "c = 44 \<and> trailing_closer cs")
      case True
      have "length (dropWhile is_space cs) < length x"
        using Cons length_dropWhile_le [of is_space cs] by simp
      moreover have "no_comment (dropWhile is_space cs)" using nc by (rule no_comment_dropWhile)
      ultimately have "no_comment (remove_trailing_commas (dropWhile is_space cs))"
        using 1(1) by blast
      with True Cons show ?thesis by (simp add: rtc_Cons)
    next
      case False
      have "no_comment (remove_trailing_commas cs)" using 1(1) nc Cons by simp
      moreover have "\<not> (c = 47 \<and> starts_slash (remove_trailing_commas cs))"
        using 1(2) Cons starts_slash_rtc by auto
      ultimately show ?thesis using False Cons by (auto simp: rtc_Cons)
    qed
  qed
qed

lemma slc_fixed: "no_comment y \<Longrightarrow> strip_line_comments y = y"
  by (induction y) (auto simp: slc_Cons)

lemma starts_slash_slc: "starts_slash (strip_line_comments cs) \<Longrightarrow> starts_slash cs"
proof (induction cs rule: length_induct)
  case (1 cs)
  show ?case
  proof (cases cs)
    case Nil
    with 1 show ?thesis by simp
  next
    case (Cons d ds)
    show ?thesis
    proof (cases "d = 47 \<and> starts_slash ds")
      case True
      then show ?thesis using Cons by (simp add: starts_slash_def)
    next
      case False
      with 1(2) Cons show ?thesis by (auto simp: slc_Cons starts_slash_def)
    qed
  qed
qed

lemma no_comment_slc: "no_comment (strip_line_comments x)"
proof (induction x rule: length_induct)
  case (1 x)
  show ?case
  proof (cases x)
    case Nil
    then show ?thesis by simp
  next
    case (Cons c cs)
    show ?thesis
    proof (cases "c = 47 \<and> starts_slash cs")
      case True
      have "length (dropWhile (\<lambda>x. x \<noteq> 10) (tl cs)) < length x"
        using Cons length_dropWhile_le [of "\<lambda>x. x \<noteq> 10" "tl cs"] by simp
      then have "no_comment (strip_line_comments (dropWhile (\<lambda>x. x \<noteq> 10) (tl cs)))"
        using 1 by blast
      with True Cons show ?thesis by (simp add: slc_Cons)
    next
      case False
      have "no_comment (strip_line_comments cs)" using 1 Cons by simp
      moreover have "\<not> (c = 47 \<and> starts_slash (strip_line_comments cs))"
        using False starts_slash_slc by blast
      ultimately show ?thesis using False Cons by (auto simp: slc_Cons)
    qed
  qed
qed

lemma rtc_fixed: "no_trailing_comma y \<Longrightarrow> remove_trailing_commas y = y"
  by (induction y) (auto simp: rtc_Cons)

lemma length_rtc: "length (remove_trailing_commas y) \<le> length y"
proof (induction y rule: length_induct)
  case (1 y)
  show ?case
  proof (cases y)
    case Nil
    then show ?thesis by simp
  next
    case (Cons c cs)
    show ?thesis
    proof (cases "c = 44 \<and> trailing_closer cs")
      case True
      have d: "length (dropWhile is_space cs) \<le> length cs" by (rule length_dropWhile_le)
      then have "length (dropWhile is_space cs) < length y" using Cons by simp
      then have "length (remove_trailing_commas (dropWhile is_space cs))
          \<le> length (dropWhile is_space cs)"
        using 1 by blast
      with d True Cons show ?thesis by (simp add: rtc_Cons)
    next
      case False
      have "length (remove_trailing_commas cs) \<le> length cs" using 1 Cons by simp
      with False Cons show ?thesis by (auto simp: rtc_Cons)
    qed
  qed
qed

lemma length_rtc_less:
  "\<not> no_trailing_comma y \<Longrightarrow> length (remove_trailing_commas y) < length y"
proof (induction y)
  case Nil
  then show ?case by simp
next
  case (Cons c cs)
  show ?case
  proof (cases "c = 44 \<and> trailing_closer cs")
    case True
    have "length (remove_trailing_commas (dropWhile is_space cs)) \<le> length (dropWhile is_space cs)"
      by (rule length_rtc)
    also have "\<dots> \<le> length cs" by (rule length_dropWhile_le)
    finally show ?thesis using True by (simp add: rtc_Cons)
  next
    case False
    with Cons.prems have "\<not> no_trailing_comma cs" by auto
    then have "length (remove_trailing_commas cs) < length cs" by (rule Cons.IH)
    with False show ?thesis by (auto simp: rtc_Cons)
  qed
qed

lemma rtc_fixed_iff: "remove_trailing_commas y = y \<longleftrightarrow> no_trailing_comma y"
proof
  assume eq: "remove_trailing_commas y = y"
  show "no_trailing_comma y"
  proof (rule ccontr)
    assume "\<not> no_trailing_comma y"
    then have "length (remove_trailing_commas y) < length y" by (rule length_rtc_less)
    with eq show False by simp
  qed
next
  assume "no_trailing_comma y"
  then show "remove_trailing_commas y = y" by (rule rtc_fixed)
qed

lemma no_comment_repair: "no_comment (repair_json x)"
  unfolding repair_json_def by (rule no_comment_slc)

lemma repair_twice: "repair_json (repair_json x) = remove_trailing_commas (repair_json x)"
proof -
  have "no_comment (remove_trailing_commas (repair_json x))"
    using no_comment_repair by (rule no_comment_rtc)
  then have "strip_line_comments (remove_trailing_commas (repair_json x))
      = remove_trailing_commas (repair_json x)"
    by (rule slc_fixed)
  then show ?thesis by (simp only: repair_json_def)
qed

text \<open>
  Claim C3 (as amended). Stripping line comments is idempotent on every text. A second
  pass of the whole repair never finds a comment, so on every text it does exactly what
  trailing-comma removal does to the first pass's output; hence the repair is idempotent
  on a text precisely when its repaired form has no comma that stands, after optional
  whitespace, before a closing bracket or brace. In particular it is idempotent on every
  text without \<open>//\<close> in which no comma is followed by a second comma standing before a
  closing bracket.
\<close>

theorem repair_second_pass:
  "strip_line_comments (strip_line_comments x) = strip_line_comments x
   \<and> repair_json (repair_json x) = remove_trailing_commas (repair_json x)
   \<and> (repair_json (repair_json x) = repair_json x \<longleftrightarrow> no_trailing_comma (repair_json x))
   \<and> (no_comment x \<and> no_double_comma x \<longrightarrow> repair_json (repair_json x) = repair_json x)"
proof (intro conjI impI)
  show "strip_line_comments (strip_line_comments x) = strip_line_comments x"
    using no_comment_slc by (rule slc_fixed)
  show "repair_json (repair_json x) = remove_trailing_commas (repair_json x)"
    by (rule repair_twice)
  show "repair_json (repair_json x) = repair_json x \<longleftrightarrow> no_trailing_comma (repair_json x)"
    unfolding repair_twice by (rule rtc_fixed_iff)
next
  assume h: "no_comment x \<and> no_double_comma x"
  then have "no_comment (remove_trailing_commas x)" by (simp add: no_comment_rtc)
  then have r: "repair_json x = remove_trailing_commas x"
    unfolding repair_json_def by (rule slc_fixed)
  have rr: "remove_trailing_commas (remove_trailing_commas x) = remove_trailing_commas x"
    using h by (simp add: rtc_idem)
  show "repair_json (repair_json x) = repair_json x"
    unfolding repair_twice unfolding r by (rule rr)
qed

lemmas text_eval =
  py_def is_space_def rtc_Cons slc_Cons trailing_closer_def trailing_comma_def starts_slash_def
  repair_json_def

theorem repair_second_pass_witness:
  "no_comment (py ''[1, 2, ]'') \<and> no_double_comma (py ''[1, 2, ]'')
   \<and> repair_json (py ''[1, 2, ]'') = py ''[1, 2]''
   \<and> repair_json (repair_json (py ''[1, 2, ]'')) = repair_json (py ''[1, 2, ]'')
   \<and> repair_json (py ''[1, // c'' @ 10 # py ''2, ]'') = py ''[1, '' @ 10 # py ''2]''
   \<and> no_trailing_comma (repair_json (py ''[1, // c'' @ 10 # py ''2, ]''))
   \<and> repair_json (repair_json (py ''[1, // c'' @ 10 # py ''2, ]''))
       = repair_json (py ''[1, // c'' @ 10 # py ''2, ]'')"
proof -
  have a: "no_comment (py ''[1, 2, ]'') \<and> no_double_comma (py ''[1, 2, ]'')"
    by (simp add: text_eval)
  have b: "repair_json (py ''[1, 2, ]'') = py ''[1, 2]''"
    by (simp add: text_eval)
  have c: "repair_json (py ''[1, // c'' @ 10 # py ''2, ]'') = py ''[1, '' @ 10 # py ''2]''"
    by (simp add: text_eval)
  have d: "no_trailing_comma (py ''[1, '' @ 10 # py ''2]'')"
    by (simp add: text_eval)
  have d': "no_trailing_comma (repair_json (py ''[1, // c'' @ 10 # py ''2, ]''))"
    unfolding c by (rule d)
  from a have e: "repair_json (repair_json (py ''[1, 2, ]'')) = repair_json (py ''[1, 2, ]'')"
    using repair_second_pass [of "py ''[1, 2, ]''"] by blast
  from d' have f: "repair_json (repair_json (py ''[1, // c'' @ 10 # py ''2, ]''))
       = repair_json (py ''[1, // c'' @ 10 # py ''2, ]'')"
    using repair_second_pass [of "py ''[1, // c'' @ 10 # py ''2, ]''"] by blast
  from a b c d' e f show ?thesis by blast
qed

text \<open>
  Claim C3 as stated fails: on \<open>{,,}\<close> the first pass removes one comma and a second
  pass removes the other.
\<close>

theorem repair_not_idempotent:
  "repair_json (py ''{,,}'') = py ''{,}''
   \<and> repair_json (repair_json (py ''{,,}'')) = py ''{}''
   \<and> repair_json (repair_json (py ''{,,}'')) \<noteq> repair_json (py ''{,,}'')"
  by (simp add: text_eval)

section \<open>Image download\<close>





lemma image_paths_failed [simp]: "image_paths (failed c m) = []" "success (failed c m) = False"
  by (simp_all add: failed_def)

lemma image_paths_on_exception [simp]:
  "image_paths (on_exception e) = []" "success (on_exception e) = False"
  by (cases e; simp add: on_exception_def)+

lemma image_paths_finish [simp]:
  "image_paths (finish c ps cap t) = ps" "success (finish c ps cap t) = (ps \<noteq> [])"
  by (simp_all add: finish_def)









section \<open>Response parsing\<close>

lemma found_not_found [simp]: "found (not_found n) = False" "places (not_found n) = []"
  by (simp_all add: not_found_def)

lemma found_parse_failed [simp]: "found (parse_failed e) = False" "places (parse_failed e) = []"
  by (simp_all add: parse_failed_def)

lemma interpret_data_found:
  "interpret_data data = Inr r \<Longrightarrow> (found r \<longleftrightarrow> places r \<noteq> [])"
  by (cases data)
     (auto simp: interpret_data_def Let_def split: if_splits sum.splits option.splits)

lemma parse_response_cases:
  "parse_response loads response_text = Inr r \<Longrightarrow>
     (found r = False \<and> places r = []) \<or> (\<exists>data. interpret_data data = Inr r)"
  unfolding parse_response_def parse_response_run_def
  by (auto simp: Let_def split: option.splits sum.splits)

lemma parse_response_found:
  "parse_response loads response_text = Inr r \<Longrightarrow> (found r \<longleftrightarrow> places r \<noteq> [])"
  using parse_response_cases interpret_data_found by blast

lemma extract_places_found:
  "found (extract_places loads chat) \<longleftrightarrow> places (extract_places loads chat) \<noteq> []"
  using parse_response_found [of loads]
  by (auto simp: extract_places_def split: sum.splits)

lemma interpret_data_no_places:
  assumes "truthy (lookup d ''found'' (JBool False))"
      and "lookup d ''places'' (JList []) = JList []"
      and "map_of d (py ''place'') = None"
  shows "interpret_data (JDict d) =
           Inr \<lparr>found = False, places = [], result_notes = lookup d ''notes'' JNull\<rparr>"
  using assms by (simp add: interpret_data_def Let_def)

lemma build_places_length: "build_places items = Inr ps \<Longrightarrow> length ps = length items"
  by (induction items arbitrary: ps) (auto split: sum.splits)

lemma first_attempt_parsed:
  assumes "brace_span (strip_code_fences response_text) = Some braces"
      and "loads (repair_json braces) = Inr data"
  shows "parse_response loads response_text = interpret_data data"
  using assms by (simp add: parse_response_def parse_response_run_def Let_def)

lemma interpret_data_flag_false:
  "\<not> truthy (lookup d ''found'' (JBool False)) \<Longrightarrow>
   interpret_data (JDict d) = Inr (not_found (lookup d ''notes'' JNull))"
  by (simp add: interpret_data_def not_found_def)

lemma interpret_data_places:
  assumes "truthy (lookup d ''found'' (JBool False))"
      and "lookup d ''places'' (JList []) = JList items" and "items \<noteq> []"
      and "build_places items = Inr ps"
  shows "interpret_data (JDict d) =
           Inr \<lparr>found = True, places = ps, result_notes = lookup d ''notes'' JNull\<rparr>"
proof -
  have "length ps = length items" using assms(4) by (rule build_places_length)
  with assms(3) have "0 < length ps" by simp
  with assms show ?thesis by (simp add: interpret_data_def Let_def)
qed

text \<open>
  Claim C10. Whenever \<open>_parse_response\<close> returns a result, and whatever \<open>extract\<close>
  returns, \<open>found\<close> is true exactly when the list of places is not empty. When the reply
  parses at the first attempt into an object whose \<open>found\<close> flag is true: with an empty
  \<open>places\<close> list and no \<open>place\<close> key the result has \<open>found = False\<close> and no place; with a
  non-empty list of place objects it has \<open>found = True\<close> and one place per object. When
  the flag is false or absent the result has \<open>found = False\<close> and no place.
\<close>

theorem found_iff_places:
  "(parse_response loads response_text = Inr r \<longrightarrow> (found r \<longleftrightarrow> places r \<noteq> []))
   \<and> (found (extract_places loads chat) \<longleftrightarrow> places (extract_places loads chat) \<noteq> [])
   \<and> (brace_span (strip_code_fences response_text) = Some braces
        \<and> loads (repair_json braces) = Inr (JDict d)
        \<and> truthy (lookup d ''found'' (JBool False))
        \<and> lookup d ''places'' (JList []) = JList []
        \<and> map_of d (py ''place'') = None
      \<longrightarrow> parse_response loads response_text =
            Inr \<lparr>found = False, places = [], result_notes = lookup d ''notes'' JNull\<rparr>)
   \<and> (brace_span (strip_code_fences response_text) = Some braces
        \<and> loads (repair_json braces) = Inr (JDict d)
        \<and> truthy (lookup d ''found'' (JBool False))
        \<and> lookup d ''places'' (JList []) = JList items \<and> items \<noteq> []
        \<and> build_places items = Inr ps
      \<longrightarrow> parse_response loads response_text =
            Inr \<lparr>found = True, places = ps, result_notes = lookup d ''notes'' JNull\<rparr>
          \<and> length ps = length items)
   \<and> (brace_span (strip_code_fences response_text) = Some braces
        \<and> loads (repair_json braces) = Inr (JDict d)
        \<and> \<not> truthy (lookup d ''found'' (JBool False))
      \<longrightarrow> parse_response loads response_text =
            Inr \<lparr>found = False, places = [], result_notes = lookup d ''notes'' JNull\<rparr>)"
proof (intro conjI impI)
  assume "parse_response loads response_text = Inr r"
  then show "found r \<longleftrightarrow> places r \<noteq> []" by (rule parse_response_found)
next
  show "found (extract_places loads chat) \<longleftrightarrow> places (extract_places loads chat) \<noteq> []"
    by (rule extract_places_found)
next
  assume h: "brace_span (strip_code_fences response_text) = Some braces
        \<and> loads (repair_json braces) = Inr (JDict d)
        \<and> truthy (lookup d ''found'' (JBool False))
        \<and> lookup d ''places'' (JList []) = JList []
        \<and> map_of d (py ''place'') = None"
  then have "parse_response loads response_text = interpret_data (JDict d)"
    by (simp add: first_attempt_parsed)
  with h show "parse_response loads response_text =
            Inr \<lparr>found = False, places = [], result_notes = lookup d ''notes'' JNull\<rparr>"
    by (simp add: interpret_data_no_places)
next
  assume h: "brace_span (strip_code_fences response_text) = Some braces
        \<and> loads (repair_json braces) = Inr (JDict d)
        \<and> truthy (lookup d ''found'' (JBool False))
        \<and> lookup d ''places'' (JList []) = JList items \<and> items \<noteq> []
        \<and> build_places items = Inr ps"
  then have "parse_response loads response_text = interpret_data (JDict d)"
    by (simp add: first_attempt_parsed)
  with h show "parse_response loads response_text =
            Inr \<lparr>found = True, places = ps, result_notes = lookup d ''notes'' JNull\<rparr>"
    by (simp add: interpret_data_places)
  from h show "length ps = length items" by (simp add: build_places_length)
next
  assume h: "brace_span (strip_code_fences response_text) = Some braces
        \<and> loads (repair_json braces) = Inr (JDict d)
        \<and> \<not> truthy (lookup d ''found'' (JBool False))"
  then have "parse_response loads response_text = interpret_data (JDict d)"
    by (simp add: first_attempt_parsed)
  with h show "parse_response loads response_text =
            Inr \<lparr>found = False, places = [], result_notes = lookup d ''notes'' JNull\<rparr>"
    by (simp add: interpret_data_flag_false not_found_def)
qed

lemma span_of_braces:
  "brace_span (strip_code_fences (py ''{}'')) = Some (py ''{}'')"
  "repair_json (py ''{}'') = py ''{}''"
  by (simp_all add: strip_code_fences_def brace_span_def fence_def text_eval)

lemma demo_reply_facts:
  "truthy (lookup demo_reply ''found'' (JBool False))"
  "lookup demo_reply ''places'' (JList []) = JList []"
  "map_of demo_reply (py ''place'') = None"
  by (simp_all add: demo_reply_def lookup_def py_def)

theorem found_iff_places_witness:
  "brace_span (strip_code_fences (py ''{}'')) = Some (py ''{}'')
   \<and> truthy (lookup demo_reply ''found'' (JBool False))
   \<and> lookup demo_reply ''places'' (JList []) = JList []
   \<and> map_of demo_reply (py ''place'') = None
   \<and> parse_response (\<lambda>s. Inr (JDict demo_reply)) (py ''{}'') =
        Inr \<lparr>found = False, places = [], result_notes = JNull\<rparr>
   \<and> found \<lparr>found = False, places = [], result_notes = JNull\<rparr>
        = (places \<lparr>found = False, places = [], result_notes = JNull\<rparr> \<noteq> [])"
proof -
  note t = found_iff_places [of "\<lambda>s. Inr (JDict demo_reply)" "py ''{}''"
      "\<lparr>found = False, places = [], result_notes = JNull\<rparr>" _ "py ''{}''" demo_reply]
  have n: "lookup demo_reply ''notes'' JNull = JNull"
    by (simp add: demo_reply_def lookup_def py_def)
  have "parse_response (\<lambda>s. Inr (JDict demo_reply)) (py ''{}'') =
        Inr \<lparr>found = False, places = [], result_notes = lookup demo_reply ''notes'' JNull\<rparr>"
    using t span_of_braces demo_reply_facts by blast
  then have p: "parse_response (\<lambda>s. Inr (JDict demo_reply)) (py ''{}'') =
        Inr \<lparr>found = False, places = [], result_notes = JNull\<rparr>"
    unfolding n .
  with t have "found \<lparr>found = False, places = [], result_notes = JNull\<rparr>
        = (places \<lparr>found = False, places = [], result_notes = JNull\<rparr> \<noteq> [])"
    by blast
  with p span_of_braces demo_reply_facts show ?thesis by blast
qed


lemma find_anchor_None: "find_anchor s = None \<Longrightarrow> s = p @ q \<Longrightarrow> \<not> anchor_at q"
proof (induction s arbitrary: p)
  case Nil
  then show ?case by (simp add: anchor_at_def)
next
  case (Cons c cs)
  then show ?case by (cases p) (auto split: if_splits)
qed







section \<open>Concurrent place search\<close>

lemma gather_run_all_ok:
  assumes "\<forall>i \<in> set ord. i < length tasks \<and> tasks ! i = Inr (vs ! i)"
  shows "gather_run tasks ord slots
       = map_option Inr (those (fold (\<lambda>i s. s[i := Some (vs ! i)]) ord slots))"
  using assms by (induction ord arbitrary: slots) auto

lemma fold_update_nth:
  "j < length slots \<Longrightarrow>
   fold (\<lambda>i s. s[i := Some (vs ! i)]) ord slots ! j
     = (if j \<in> set ord then Some (vs ! j) else slots ! j)"
  by (induction ord arbitrary: slots) (auto simp: nth_list_update)

lemma length_fold_update [simp]:
  "length (fold (\<lambda>i s. s[i := Some (vs ! i)]) ord slots) = length slots"
  by (induction ord arbitrary: slots) auto

lemma those_map_Some [simp]: "those (map Some xs) = Some xs"
  by (induction xs) auto

lemma fold_update_all:
  assumes "set ord = {..<length vs}"
  shows "fold (\<lambda>i s. s[i := Some (vs ! i)]) ord (replicate (length vs) None) = map Some vs"
  by (rule nth_equalityI) (use assms in \<open>auto simp: fold_update_nth\<close>)

lemma gather_all_ok:
  assumes "set ord = {..<length tasks}" and "length vs = length tasks"
      and "\<forall>i < length tasks. tasks ! i = Inr (vs ! i)"
  shows "gather tasks ord = Some (Inr vs)"
proof -
  have "\<forall>i \<in> set ord. i < length tasks \<and> tasks ! i = Inr (vs ! i)" using assms by auto
  then have "gather tasks ord
      = map_option Inr (those (fold (\<lambda>i s. s[i := Some (vs ! i)]) ord (replicate (length tasks) None)))"
    unfolding gather_def by (rule gather_run_all_ok)
  also have "fold (\<lambda>i s. s[i := Some (vs ! i)]) ord (replicate (length tasks) None) = map Some vs"
    using fold_update_all [of ord vs] assms by simp
  finally show ?thesis by simp
qed

lemma gather_run_failure:
  assumes "i \<in> set ord" and "i < length tasks" and "tasks ! i = Inl e"
  shows "\<exists>e'. gather_run tasks ord slots = Some (Inl e')"
  using assms by (induction ord arbitrary: slots) (auto split: sum.splits)

lemma gather_failure:
  assumes "i \<in> set ord" and "i < length tasks" and "tasks ! i = Inl e"
  shows "\<exists>e'. gather tasks ord = Some (Inl e')"
  unfolding gather_def using assms by (rule gather_run_failure)

lemma gather_Inr_iff:
  assumes "set ord = {..<length tasks}"
  shows "gather tasks ord = Some (Inr vs)
     \<longleftrightarrow> length vs = length tasks \<and> (\<forall>i < length tasks. tasks ! i = Inr (vs ! i))"
proof
  assume g: "gather tasks ord = Some (Inr vs)"
  have ok: "\<exists>v. tasks ! i = Inr v" if lt: "i < length tasks" for i
  proof (cases "tasks ! i")
    case (Inl e)
    have "i \<in> set ord" using assms lt by simp
    then obtain e' where "gather tasks ord = Some (Inl e')"
      using gather_failure [OF _ lt Inl] by blast
    with g show ?thesis by simp
  next
    case (Inr v)
    then show ?thesis by blast
  qed
  define ws where "ws = map (\<lambda>t. case t of Inr v \<Rightarrow> v) tasks"
  have "length ws = length tasks" by (simp add: ws_def)
  moreover have "\<forall>i < length tasks. tasks ! i = Inr (ws ! i)"
  proof (intro allI impI)
    fix i assume lt: "i < length tasks"
    then obtain v where "tasks ! i = Inr v" using ok by blast
    with lt show "tasks ! i = Inr (ws ! i)" by (simp add: ws_def)
  qed
  ultimately have "gather tasks ord = Some (Inr ws)" using assms gather_all_ok by blast
  with g have "vs = ws" by simp
  with \<open>length ws = length tasks\<close> \<open>\<forall>i < length tasks. tasks ! i = Inr (ws ! i)\<close>
  show "length vs = length tasks \<and> (\<forall>i < length tasks. tasks ! i = Inr (vs ! i))" by simp
next
  assume "length vs = length tasks \<and> (\<forall>i < length tasks. tasks ! i = Inr (vs ! i))"
  then show "gather tasks ord = Some (Inr vs)" using assms gather_all_ok by blast
qed

lemma search_tasks_nth:
  "i < length place_list \<Longrightarrow>
   search_tasks str_of search_place place_list ! i
     = search_place_with_info str_of (search_place i) (place_list ! i)"
  by (simp add: search_tasks_def nth_enumerate_eq)

lemma length_search_tasks [simp]:
  "length (search_tasks str_of search_place place_list) = length place_list"
  by (simp add: search_tasks_def)

lemma search_place_with_info_fst:
  "search_place_with_info str_of sp place_info = Inr pr \<Longrightarrow> fst pr = place_info"
  by (auto simp: search_place_with_info_def Let_def split: sum.splits if_splits)

text \<open>
  Claim C8. Let every search task finish, in any completion order. Then the join returns
  a sequence of pairs exactly when every task returned one, and its \<open>i\<close>-th element is
  the pair the task of the \<open>i\<close>-th place returned, which holds that place as its first
  component; any other completion order gives the same sequence.
\<close>

theorem fan_in_order:
  assumes "set completion_order = {..<length place_list}"
  shows "(search_results str_of search_place completion_order place_list = Some (Inr joined)
          \<longleftrightarrow> length joined = length place_list
              \<and> (\<forall>i < length place_list.
                    search_place_with_info str_of (search_place i) (place_list ! i)
                      = Inr (joined ! i)))
       \<and> (search_results str_of search_place completion_order place_list = Some (Inr joined)
          \<longrightarrow> (\<forall>i < length place_list. fst (joined ! i) = place_list ! i))
       \<and> (\<forall>other_order. set other_order = {..<length place_list}
            \<and> search_results str_of search_place completion_order place_list = Some (Inr joined)
          \<longrightarrow> search_results str_of search_place other_order place_list = Some (Inr joined))"
proof -
  have iff: "search_results str_of search_place ord place_list = Some (Inr rs)
          \<longleftrightarrow> length rs = length place_list
              \<and> (\<forall>i < length place_list.
                    search_place_with_info str_of (search_place i) (place_list ! i) = Inr (rs ! i))"
    if "set ord = {..<length place_list}" for ord rs
    unfolding search_results_def
    using gather_Inr_iff [of ord "search_tasks str_of search_place place_list" rs] that
    by (simp add: search_tasks_nth)
  have f1: "search_results str_of search_place completion_order place_list = Some (Inr joined)
          \<longleftrightarrow> length joined = length place_list
              \<and> (\<forall>i < length place_list.
                    search_place_with_info str_of (search_place i) (place_list ! i)
                      = Inr (joined ! i))"
    by (rule iff [OF assms])
  have f2: "\<forall>i < length place_list. fst (joined ! i) = place_list ! i"
    if "search_results str_of search_place completion_order place_list = Some (Inr joined)"
  proof -
    from that have "\<forall>i < length place_list.
        search_place_with_info str_of (search_place i) (place_list ! i) = Inr (joined ! i)"
      using f1 by blast
    then show ?thesis using search_place_with_info_fst by blast
  qed
  have f3: "search_results str_of search_place other_order place_list = Some (Inr joined)"
    if "set other_order = {..<length place_list}
        \<and> search_results str_of search_place completion_order place_list = Some (Inr joined)"
    for other_order
    using that f1 iff [of other_order joined] by blast
  from f1 f2 f3 show ?thesis by blast
qed

lemma demo_search:
  "search_place_with_info (\<lambda>v. []) Inr (demo_place n) = Inr (demo_place n, JStr n)"
  by (simp add: search_place_with_info_def demo_place_def)

theorem fan_in_order_witness:
  "set [2, 0, 1] = {..<length demo_places}
   \<and> set [1, 2, 0] = {..<length demo_places}
   \<and> search_results (\<lambda>v. []) (\<lambda>i. Inr) [2, 0, 1] demo_places = Some (Inr demo_joined)
   \<and> search_results (\<lambda>v. []) (\<lambda>i. Inr) [1, 2, 0] demo_places = Some (Inr demo_joined)
   \<and> map fst demo_joined = demo_places"
proof -
  have a: "set [2, 0, 1] = {..<length demo_places}" and b: "set [1, 2, 0] = {..<length demo_places}"
    by (auto simp: demo_places_def)
  have c: "length demo_joined = length demo_places
      \<and> (\<forall>i < length demo_places.
            search_place_with_info (\<lambda>v. []) ((\<lambda>i. Inr) i) (demo_places ! i) = Inr (demo_joined ! i))"
    by (auto simp: demo_places_def demo_joined_def demo_search less_Suc_eq numeral_3_eq_3)
  note t = fan_in_order [OF a, of "\<lambda>v. []" "\<lambda>i. Inr" demo_joined]
  from t c have d: "search_results (\<lambda>v. []) (\<lambda>i. Inr) [2, 0, 1] demo_places = Some (Inr demo_joined)"
    by blast
  from t b d have e: "search_results (\<lambda>v. []) (\<lambda>i. Inr) [1, 2, 0] demo_places = Some (Inr demo_joined)"
    by blast
  have f: "map fst demo_joined = demo_places" by (simp add: demo_joined_def demo_places_def)
  from a b d e f show ?thesis by blast
qed

section \<open>Thread aggregation\<close>

lemma bind_err_simps [simp]:
  "bind_err (Inl e) f = Inl e" "bind_err (Inr v) f = f v"
  by (simp_all add: bind_err_def)

lemma author_items_of_filter:
  "author_items_of a items = Inr kept \<Longrightarrow>
     kept = filter (same_author a) items \<and> (\<forall>item \<in> set items. \<exists>u. username_of item = Inr u)"
proof (induction items arbitrary: kept)
  case Nil
  then show ?case by simp
next
  case (Cons item rest)
  from Cons.prems obtain u k where u: "username_of item = Inr u"
    and k: "author_items_of a rest = Inr k"
    and kept: "kept = (if py_eq u a then item # k else k)"
    by (cases "username_of item"; cases "author_items_of a rest") auto
  from Cons.IH [OF k] u kept show ?case by (auto simp: same_author_def)
qed

lemma author_items_of_ok:
  "\<forall>item \<in> set items. \<exists>u. username_of item = Inr u \<Longrightarrow>
   author_items_of a items = Inr (filter (same_author a) items)"
  by (induction items) (auto simp: same_author_def)

lemma author_items_of_idem:
  assumes "author_items_of a items = Inr kept"
  shows "author_items_of a kept = Inr kept"
proof -
  from author_items_of_filter [OF assms]
  have k: "kept = filter (same_author a) items"
    and ok: "\<forall>item \<in> set items. \<exists>u. username_of item = Inr u" by blast+
  from ok k have "\<forall>item \<in> set kept. \<exists>u. username_of item = Inr u" by auto
  then have "author_items_of a kept = Inr (filter (same_author a) kept)"
    by (rule author_items_of_ok)
  also have "filter (same_author a) kept = kept" unfolding k by simp
  finally show ?thesis .
qed

lemma username_of_parts:
  assumes "username_of item = Inr a"
  obtains fp fu where "py_get item ''post'' (JDict []) = Inr fp"
    and "py_get fp ''user'' (JDict []) = Inr fu" and "a = username_in fu"
  using assms unfolding username_of_def username_in_def
  by (cases "py_get item ''post'' (JDict [])";
      cases "py_get (projr (py_get item ''post'' (JDict []))) ''user'' (JDict [])") auto

lemma extract_unfold:
  assumes "lookup d ''thread_items'' (JList []) = JList (first # rest)"
      and "py_get first ''post'' (JDict []) = Inr fp"
      and "py_get fp ''user'' (JDict []) = Inr fu"
  shows "extract_from_thread_node str_of (JDict d) =
           bind_err (author_items_of (username_in fu) (first # rest))
             (\<lambda>author_items.
                bind_err (py_get fp ''media_type'' JNull)
                  (\<lambda>mt. aggregate str_of mt (username_in fu) author_items))"
  using assms
  by (simp add: extract_from_thread_node_def py_get_def username_in_def Let_def)

lemma extract_same_on_author_items:
  assumes d: "lookup d ''thread_items'' (JList []) = JList items"
      and d': "lookup d' ''thread_items'' (JList []) = JList kept"
      and ne: "items \<noteq> []"
      and a: "username_of (hd items) = Inr a" and refl: "py_eq a a"
      and ais: "author_items_of a items = Inr kept"
  shows "extract_from_thread_node str_of (JDict d') = extract_from_thread_node str_of (JDict d)"
proof -
  from ne obtain first rest where items: "items = first # rest" by (cases items) auto
  with a have a1: "username_of first = Inr a" by simp
  then obtain fp fu where fp: "py_get first ''post'' (JDict []) = Inr fp"
    and fu: "py_get fp ''user'' (JDict []) = Inr fu" and au: "a = username_in fu"
    by (rule username_of_parts)
  from ais items a1 refl obtain k where k: "kept = first # k"
    by (cases "author_items_of a rest") auto
  have idem: "author_items_of a kept = Inr kept" using ais by (rule author_items_of_idem)
  have "extract_from_thread_node str_of (JDict d) =
      bind_err (py_get fp ''media_type'' JNull) (\<lambda>mt. aggregate str_of mt a kept)"
    using extract_unfold [OF d [unfolded items] fp fu, of str_of] ais
    unfolding au [symmetric] items by simp
  moreover have "extract_from_thread_node str_of (JDict d') =
      bind_err (py_get fp ''media_type'' JNull) (\<lambda>mt. aggregate str_of mt a kept)"
    using extract_unfold [OF d' [unfolded k] fp fu, of str_of] idem
    unfolding au [symmetric] k by simp
  ultimately show ?thesis by simp
qed

lemma thread_items_count_kept:
  assumes d: "lookup d ''thread_items'' (JList []) = JList items"
      and ne: "items \<noteq> []"
      and a: "username_of (hd items) = Inr a"
      and ais: "author_items_of a items = Inr kept"
      and r: "extract_from_thread_node str_of (JDict d) = Inr r"
  shows "thread_items_count r = length kept \<and> author r = a"
proof -
  from ne obtain first rest where items: "items = first # rest" by (cases items) auto
  with a have a1: "username_of first = Inr a" by simp
  then obtain fp fu where fp: "py_get first ''post'' (JDict []) = Inr fp"
    and fu: "py_get fp ''user'' (JDict []) = Inr fu" and au: "a = username_in fu"
    by (rule username_of_parts)
  have "extract_from_thread_node str_of (JDict d) =
      bind_err (py_get fp ''media_type'' JNull) (\<lambda>mt. aggregate str_of mt a kept)"
    using extract_unfold [OF d [unfolded items] fp fu, of str_of] ais
    unfolding au [symmetric] items by simp
  with r show ?thesis
    by (cases "py_get fp ''media_type'' JNull")
       (auto simp: aggregate_def Let_def bind_err_def split: sum.splits)
qed

text \<open>
  Claim C5. For a thread of four items whose authors are \<open>a\<close>, \<open>a\<close>, \<open>b\<close>, \<open>a\<close> with
  \<open>b\<close> different from \<open>a\<close>, the filter loop keeps exactly the first, second and fourth
  item, in order; the method returns what it returns for the thread without the third
  item, and a result it returns counts 3 items and names \<open>a\<close> as author. In general the
  kept items are exactly the items whose author equals the first item's author, in order,
  and the method returns what it returns for the thread of the kept items alone: the
  other items contribute nothing.
\<close>

theorem author_filtering:
  assumes "username_of i1 = Inr a" and "username_of i2 = Inr a"
      and "username_of i3 = Inr b" and "username_of i4 = Inr a"
      and "py_eq a a" and "\<not> py_eq b a"
      and "lookup d ''thread_items'' (JList []) = JList [i1, i2, i3, i4]"
      and "lookup d' ''thread_items'' (JList []) = JList [i1, i2, i4]"
  shows "author_items_of a [i1, i2, i3, i4] = Inr [i1, i2, i4]
       \<and> extract_from_thread_node str_of (JDict d) = extract_from_thread_node str_of (JDict d')
       \<and> (\<forall>r. extract_from_thread_node str_of (JDict d) = Inr r \<longrightarrow>
              thread_items_count r = 3 \<and> author r = a)
       \<and> (\<forall>items kept c e e'.
              lookup e ''thread_items'' (JList []) = JList items
            \<and> lookup e' ''thread_items'' (JList []) = JList kept
            \<and> items \<noteq> [] \<and> username_of (hd items) = Inr c \<and> py_eq c c
            \<and> author_items_of c items = Inr kept
            \<longrightarrow> kept = filter (same_author c) items
              \<and> extract_from_thread_node str_of (JDict e') = extract_from_thread_node str_of (JDict e))"
proof (intro conjI allI impI)
  show ais: "author_items_of a [i1, i2, i3, i4] = Inr [i1, i2, i4]"
    using assms(1-6) by simp
  have hd: "username_of (hd [i1, i2, i3, i4]) = Inr a" using assms(1) by simp
  show "extract_from_thread_node str_of (JDict d) = extract_from_thread_node str_of (JDict d')"
    using extract_same_on_author_items [OF assms(7) assms(8) _ hd assms(5) ais, of str_of]
    by simp
  fix r assume "extract_from_thread_node str_of (JDict d) = Inr r"
  from thread_items_count_kept [OF assms(7) _ hd ais this]
  show "thread_items_count r = 3" and "author r = a" by simp_all
next
  fix items kept c e e'
  assume h: "lookup e ''thread_items'' (JList []) = JList items
            \<and> lookup e' ''thread_items'' (JList []) = JList kept
            \<and> items \<noteq> [] \<and> username_of (hd items) = Inr c \<and> py_eq c c
            \<and> author_items_of c items = Inr kept"
  then show "kept = filter (same_author c) items" using author_items_of_filter by blast
  from h show "extract_from_thread_node str_of (JDict e') = extract_from_thread_node str_of (JDict e)"
    using extract_same_on_author_items by blast
qed

lemma username_of_thread_item: "username_of (thread_item u t) = Inr (JStr u)"
  by (simp add: username_of_def thread_item_def py_get_def lookup_def py_def)

lemma demo_result:
  "(case extract_from_thread_node (\<lambda>v. []) demo_thread of
      Inl e \<Rightarrow> False
    | Inr r \<Rightarrow> thread_items_count r = 3 \<and> author r = JStr (py ''alice'')
              \<and> thread_caption r
                  = JStr (py ''[1/3] one'' @ 10 # py ''---'' @ 10 # py ''[2/3] two'' @ 10 # py ''---''
                          @ 10 # py ''[3/3] four''))"
  by code_simp

theorem author_filtering_witness:
  "username_of (thread_item (py ''alice'') (py ''one'')) = Inr (JStr (py ''alice''))
   \<and> username_of (thread_item (py ''bob'') (py ''three'')) = Inr (JStr (py ''bob''))
   \<and> py_eq (JStr (py ''alice'')) (JStr (py ''alice''))
   \<and> \<not> py_eq (JStr (py ''bob'')) (JStr (py ''alice''))
   \<and> author_items_of (JStr (py ''alice''))
        [thread_item (py ''alice'') (py ''one''), thread_item (py ''alice'') (py ''two''),
         thread_item (py ''bob'') (py ''three''), thread_item (py ''alice'') (py ''four'')]
       = Inr [thread_item (py ''alice'') (py ''one''), thread_item (py ''alice'') (py ''two''),
              thread_item (py ''alice'') (py ''four'')]
   \<and> extract_from_thread_node (\<lambda>v. []) demo_thread = extract_from_thread_node (\<lambda>v. []) demo_kept
   \<and> (case extract_from_thread_node (\<lambda>v. []) demo_thread of
        Inl e \<Rightarrow> False
      | Inr r \<Rightarrow> thread_items_count r = 3 \<and> author r = JStr (py ''alice''))"
proof -
  have eq: "py_eq (JStr (py ''alice'')) (JStr (py ''alice''))"
    and ne: "\<not> py_eq (JStr (py ''bob'')) (JStr (py ''alice''))"
    by (simp_all add: py_def)
  have d: "lookup [(py ''thread_items'',
             JList [thread_item (py ''alice'') (py ''one''), thread_item (py ''alice'') (py ''two''),
                    thread_item (py ''bob'') (py ''three''), thread_item (py ''alice'') (py ''four'')])]
            ''thread_items'' (JList [])
         = JList [thread_item (py ''alice'') (py ''one''), thread_item (py ''alice'') (py ''two''),
                  thread_item (py ''bob'') (py ''three''), thread_item (py ''alice'') (py ''four'')]"
    by (simp add: lookup_def)
  have d': "lookup [(py ''thread_items'',
             JList [thread_item (py ''alice'') (py ''one''), thread_item (py ''alice'') (py ''two''),
                    thread_item (py ''alice'') (py ''four'')])]
            ''thread_items'' (JList [])
         = JList [thread_item (py ''alice'') (py ''one''), thread_item (py ''alice'') (py ''two''),
                  thread_item (py ''alice'') (py ''four'')]"
    by (simp add: lookup_def)
  note t = author_filtering [OF username_of_thread_item username_of_thread_item
      username_of_thread_item username_of_thread_item eq ne d d', of "\<lambda>v. []"]
  from t have a: "author_items_of (JStr (py ''alice''))
        [thread_item (py ''alice'') (py ''one''), thread_item (py ''alice'') (py ''two''),
         thread_item (py ''bob'') (py ''three''), thread_item (py ''alice'') (py ''four'')]
       = Inr [thread_item (py ''alice'') (py ''one''), thread_item (py ''alice'') (py ''two''),
              thread_item (py ''alice'') (py ''four'')]"
    by blast
  from t have b: "extract_from_thread_node (\<lambda>v. []) demo_thread
      = extract_from_thread_node (\<lambda>v. []) demo_kept"
    unfolding demo_thread_def demo_kept_def by blast
  have c: "(case extract_from_thread_node (\<lambda>v. []) demo_thread of
        Inl e \<Rightarrow> False
      | Inr r \<Rightarrow> thread_items_count r = 3 \<and> author r = JStr (py ''alice''))"
    using demo_result by (cases "extract_from_thread_node (\<lambda>v. []) demo_thread") auto
  from a b c eq ne show ?thesis by (simp add: username_of_thread_item)
qed

section \<open>Thread-node search\<close>

lemma first_found_total:
  "\<forall>v \<in> set vs. \<exists>r. f v = Some r \<Longrightarrow> \<exists>r. first_found f vs = Some r"
  by (induction vs) (auto split: sum.splits option.splits)

lemma first_found_None:
  "first_found f vs = Some (Inr None) \<Longrightarrow> \<forall>v \<in> set vs. f v = Some (Inr None)"
  by (induction vs) (auto split: sum.splits option.splits Option.bind_splits)

lemma first_found_all_None:
  "\<forall>v \<in> set vs. f v = Some (Inr None) \<Longrightarrow> first_found f vs = Some (Inr None)"
  by (induction vs) auto

lemma first_found_Some:
  "first_found f vs = Some (Inr (Some a)) \<Longrightarrow> \<exists>v \<in> set vs. f v = Some (Inr (Some a))"
  by (induction vs) (auto split: sum.splits option.splits Option.bind_splits)

lemma first_found_cong:
  "\<forall>v \<in> set vs. f v = g v \<Longrightarrow> first_found f vs = first_found g vs"
  by (induction vs) auto

lemma find_thread_node_total: "\<exists>r. find_thread_node h obj depth = Some r"
proof (induction "21 - depth" arbitrary: obj depth)
  case 0
  then have "depth > 20" by simp
  then show ?case by (subst find_thread_node.simps) simp
next
  case (Suc n)
  have rec: "\<exists>r. find_thread_node h v (depth + 1) = Some r" for v
    using Suc.hyps(1) [of "depth + 1" v] Suc.hyps(2) by simp
  then have ff: "\<exists>r. first_found (\<lambda>v. find_thread_node h v (depth + 1)) vs = Some r" for vs
    by (intro first_found_total) blast
  show ?case
    by (subst find_thread_node.simps) (use ff in \<open>auto split: hval.splits hobj.splits sum.splits\<close>)
qed

lemma find_thread_node_too_deep:
  "depth > 20 \<Longrightarrow> find_thread_node h obj depth = Some (Inr None)"
  by (subst find_thread_node.simps) simp

lemma find_thread_node_dict:
  assumes "depth \<le> 20" and "h a = HDict d"
  shows "find_thread_node h (HRef a) depth =
           (case is_thread_node h d of
              Inl e \<Rightarrow> Some (Inl e)
            | Inr found_here \<Rightarrow>
                if found_here then Some (Inr (Some a))
                else first_found (\<lambda>val. find_thread_node h val (depth + 1)) (map snd d))"
  using assms by (subst find_thread_node.simps) simp

lemma find_thread_node_list:
  assumes "depth \<le> 20" and "h a = HList xs"
  shows "find_thread_node h (HRef a) depth =
           first_found (\<lambda>item. find_thread_node h item (depth + 1)) (take 10 xs)"
  using assms by (subst find_thread_node.simps) simp

lemma find_thread_node_scalar:
  "\<forall>a. obj \<noteq> HRef a \<Longrightarrow> find_thread_node h obj depth = Some (Inr None)"
  by (subst find_thread_node.simps) (cases obj; simp)

lemma find_thread_node_sound:
  "find_thread_node h obj depth = Some (Inr (Some a)) \<Longrightarrow>
     \<exists>d. h a = HDict d \<and> is_thread_node h d = Inr True"
proof (induction "21 - depth" arbitrary: obj depth)
  case 0
  then have "depth > 20" by simp
  with 0 show ?case by (simp add: find_thread_node_too_deep)
next
  case (Suc n)
  then have le: "depth \<le> 20" by simp
  have rec: "\<exists>d. h a = HDict d \<and> is_thread_node h d = Inr True"
    if "first_found (\<lambda>v. find_thread_node h v (depth + 1)) vs = Some (Inr (Some a))" for vs
  proof -
    from first_found_Some [OF that] obtain v
      where "find_thread_node h v (depth + 1) = Some (Inr (Some a))" by blast
    then show ?thesis using Suc.hyps(1) [of "depth + 1" v] Suc.hyps(2) by simp
  qed
  show ?case
  proof (cases obj)
    case (HRef b)
    show ?thesis
    proof (cases "h b")
      case (HList xs)
      with Suc.prems HRef le rec show ?thesis by (simp add: find_thread_node_list)
    next
      case (HDict d)
      with Suc.prems HRef le rec show ?thesis
        by (auto simp: find_thread_node_dict split: sum.splits if_splits)
    qed
  qed (use Suc.prems in \<open>simp_all add: find_thread_node_scalar\<close>)
qed

lemma heap_type_name_truncate [simp]:
  "heap_type_name (truncate_lists h) v = heap_type_name h v"
  by (cases v) (auto simp: truncate_lists_def split: hobj.splits)

lemma has_media_type_truncate [simp]:
  "has_media_type (truncate_lists h) v = has_media_type h v"
  by (auto simp: has_media_type_def truncate_lists_def split: hval.splits hobj.splits)

lemma is_thread_node_truncate [simp]:
  "is_thread_node (truncate_lists h) d = is_thread_node h d"
proof (cases "map_of d (py ''thread_items'')")
  case None
  then show ?thesis by (simp add: is_thread_node_def)
next
  case (Some items)
  show ?thesis
  proof (cases items)
    case (HRef a)
    show ?thesis
    proof (cases "h a")
      case (HDict x)
      with Some HRef show ?thesis by (simp add: is_thread_node_def truncate_lists_def)
    next
      case (HList xs)
      show ?thesis
      proof (cases xs)
        case Nil
        with Some HRef HList show ?thesis by (simp add: is_thread_node_def truncate_lists_def)
      next
        case (Cons first rest)
        have t: "truncate_lists h a = HList (first # take 9 rest)"
          using HList Cons by (simp add: truncate_lists_def take_Cons')
        have same: "(case first of
              HRef b \<Rightarrow> (case truncate_lists h b of HDict fd \<Rightarrow> Some fd | HList _ \<Rightarrow> None)
            | _ \<Rightarrow> None)
          = (case first of HRef b \<Rightarrow> (case h b of HDict fd \<Rightarrow> Some fd | HList _ \<Rightarrow> None)
            | _ \<Rightarrow> None)"
          by (auto simp: truncate_lists_def split: hval.splits hobj.splits)
        show ?thesis
          unfolding is_thread_node_def Some HRef
          by (simp add: t HList Cons same cong: option.case_cong)
      qed
    qed
  qed (use Some in \<open>simp_all add: is_thread_node_def\<close>)
qed

lemma find_thread_node_truncate:
  "find_thread_node (truncate_lists h) obj depth = find_thread_node h obj depth"
proof (induction "21 - depth" arbitrary: obj depth)
  case 0
  then have "depth > 20" by simp
  then show ?case by (simp add: find_thread_node_too_deep)
next
  case (Suc n)
  then have le: "depth \<le> 20" by simp
  have rec: "find_thread_node (truncate_lists h) v (depth + 1) = find_thread_node h v (depth + 1)"
    for v using Suc.hyps(1) [of "depth + 1" v] Suc.hyps(2) by simp
  show ?case
  proof (cases obj)
    case (HRef b)
    show ?thesis
    proof (cases "h b")
      case (HList xs)
      then have t: "truncate_lists h b = HList (take 10 xs)" by (simp add: truncate_lists_def)
      show ?thesis
        unfolding HRef find_thread_node_list [of depth "truncate_lists h" b "take 10 xs", OF le t]
          find_thread_node_list [of depth h b xs, OF le HList] rec
        by simp
    next
      case (HDict d)
      then have t: "truncate_lists h b = HDict d" by (simp add: truncate_lists_def)
      show ?thesis
        unfolding HRef find_thread_node_dict [of depth "truncate_lists h" b d, OF le t]
          find_thread_node_dict [of depth h b d, OF le HDict] rec
        by simp
    qed
  qed (simp_all add: find_thread_node_scalar)
qed

text \<open>
  Claim C6. On every heap, cyclic ones included, and for every value and depth the search
  returns: it gives a result or raises the \<open>AttributeError\<close> of the node test. A call
  with a depth above 20 returns \<open>None\<close> without looking at the value, while a call with a
  depth of at most 20 on a thread node returns that node. At a depth of at most 20 a
  dictionary gives \<open>None\<close> exactly when it is not a thread node and the search of each of
  its values at the next depth gives \<open>None\<close>, and a list gives \<open>None\<close> exactly when the
  search of each of its first ten elements at the next depth gives \<open>None\<close>. No element of a
  list after the tenth has any influence on the outcome, and a dictionary returned is a
  thread node.
\<close>

theorem find_thread_node_terminates:
  "(\<exists>r. find_thread_node h obj depth = Some r)
   \<and> (depth > 20 \<longrightarrow> find_thread_node h obj depth = Some (Inr None))
   \<and> (\<forall>a d. depth \<le> 20 \<and> h a = HDict d \<and> is_thread_node h d = Inr True
        \<longrightarrow> find_thread_node h (HRef a) depth = Some (Inr (Some a)))
   \<and> (\<forall>a d. depth \<le> 20 \<and> h a = HDict d
        \<longrightarrow> (find_thread_node h (HRef a) depth = Some (Inr None)
             \<longleftrightarrow> is_thread_node h d = Inr False
               \<and> (\<forall>val \<in> set (map snd d).
                     find_thread_node h val (depth + 1) = Some (Inr None))))
   \<and> (\<forall>a xs. depth \<le> 20 \<and> h a = HList xs
        \<longrightarrow> (find_thread_node h (HRef a) depth = Some (Inr None)
             \<longleftrightarrow> (\<forall>item \<in> set (take 10 xs).
                     find_thread_node h item (depth + 1) = Some (Inr None))))
   \<and> find_thread_node (truncate_lists h) obj depth = find_thread_node h obj depth
   \<and> (\<forall>a. find_thread_node h obj depth = Some (Inr (Some a))
        \<longrightarrow> (\<exists>d. h a = HDict d \<and> is_thread_node h d = Inr True))"
proof (intro conjI allI impI)
  show "\<exists>r. find_thread_node h obj depth = Some r" by (rule find_thread_node_total)
  show "find_thread_node (truncate_lists h) obj depth = find_thread_node h obj depth"
    by (rule find_thread_node_truncate)
next
  assume "depth > 20"
  then show "find_thread_node h obj depth = Some (Inr None)" by (rule find_thread_node_too_deep)
next
  fix a d
  assume "depth \<le> 20 \<and> h a = HDict d \<and> is_thread_node h d = Inr True"
  then show "find_thread_node h (HRef a) depth = Some (Inr (Some a))"
    using find_thread_node_dict [of depth h a d] by simp
next
  fix a d
  assume h: "depth \<le> 20 \<and> h a = HDict d"
  let ?rest = "first_found (\<lambda>val. find_thread_node h val (depth + 1)) (map snd d)"
  have eq: "find_thread_node h (HRef a) depth =
        (case is_thread_node h d of
              Inl e \<Rightarrow> Some (Inl e)
            | Inr found_here \<Rightarrow> if found_here then Some (Inr (Some a)) else ?rest)"
    using h find_thread_node_dict [of depth h a d] by simp
  show "find_thread_node h (HRef a) depth = Some (Inr None)
        \<longleftrightarrow> is_thread_node h d = Inr False
          \<and> (\<forall>val \<in> set (map snd d). find_thread_node h val (depth + 1) = Some (Inr None))"
  proof
    assume none: "find_thread_node h (HRef a) depth = Some (Inr None)"
    with eq have nt: "is_thread_node h d = Inr False"
      by (cases "is_thread_node h d") (auto split: if_splits)
    with eq none have "?rest = Some (Inr None)" by simp
    then have "\<forall>val \<in> set (map snd d). find_thread_node h val (depth + 1) = Some (Inr None)"
      by (rule first_found_None)
    with nt show "is_thread_node h d = Inr False
          \<and> (\<forall>val \<in> set (map snd d). find_thread_node h val (depth + 1) = Some (Inr None))"
      by simp
  next
    assume r: "is_thread_node h d = Inr False
          \<and> (\<forall>val \<in> set (map snd d). find_thread_node h val (depth + 1) = Some (Inr None))"
    then have "?rest = Some (Inr None)" by (intro first_found_all_None) simp
    with r eq show "find_thread_node h (HRef a) depth = Some (Inr None)" by simp
  qed
next
  fix a xs
  assume h: "depth \<le> 20 \<and> h a = HList xs"
  let ?rest = "first_found (\<lambda>item. find_thread_node h item (depth + 1)) (take 10 xs)"
  have eq: "find_thread_node h (HRef a) depth = ?rest"
    using h find_thread_node_list [of depth h a xs] by simp
  show "find_thread_node h (HRef a) depth = Some (Inr None)
        \<longleftrightarrow> (\<forall>item \<in> set (take 10 xs). find_thread_node h item (depth + 1) = Some (Inr None))"
  proof
    assume "find_thread_node h (HRef a) depth = Some (Inr None)"
    with eq have "?rest = Some (Inr None)" by simp
    then show "\<forall>item \<in> set (take 10 xs). find_thread_node h item (depth + 1) = Some (Inr None)"
      by (rule first_found_None)
  next
    assume "\<forall>item \<in> set (take 10 xs). find_thread_node h item (depth + 1) = Some (Inr None)"
    then have "?rest = Some (Inr None)" by (rule first_found_all_None)
    with eq show "find_thread_node h (HRef a) depth = Some (Inr None)" by simp
  qed
next
  fix a
  assume "find_thread_node h obj depth = Some (Inr (Some a))"
  then show "\<exists>d. h a = HDict d \<and> is_thread_node h d = Inr True"
    by (rule find_thread_node_sound)
qed

lemma cyclic_heap_search: "find_thread_node cyclic_heap (HRef 0) depth = Some (Inr None)"
proof (induction "21 - depth" arbitrary: depth)
  case 0
  then have "depth > 20" by simp
  then show ?case by (rule find_thread_node_too_deep)
next
  case (Suc n)
  then have le: "depth \<le> 20" by simp
  have rec: "find_thread_node cyclic_heap (HRef 0) (Suc depth) = Some (Inr None)"
    using Suc.hyps(1) [of "Suc depth"] Suc.hyps(2) by simp
  have d: "cyclic_heap 0 = HDict [(py ''self'', HRef 0), (py ''items'', HRef 0)]"
    by (simp add: cyclic_heap_def)
  have nt: "is_thread_node cyclic_heap [(py ''self'', HRef 0), (py ''items'', HRef 0)] = Inr False"
    by (simp add: is_thread_node_def py_def)
  show ?case
    unfolding find_thread_node_dict
        [of depth cyclic_heap 0 "[(py ''self'', HRef 0), (py ''items'', HRef 0)]", OF le d]
    by (simp add: nt rec)
qed

lemma thread_heap_0: "thread_heap 0 = HDict [(py ''thread_items'', HRef 1)]"
  by (simp add: thread_heap_def)

lemma thread_heap_4: "thread_heap 4 = HList (replicate 10 HNull @ [HRef 0])"
  by (simp add: thread_heap_def)

lemma thread_heap_node: "is_thread_node thread_heap [(py ''thread_items'', HRef 1)] = Inr True"
  by (simp add: is_thread_node_def thread_heap_def has_media_type_def py_def)

theorem find_thread_node_terminates_witness:
  "find_thread_node cyclic_heap (HRef 0) 0 = Some (Inr None)
   \<and> find_thread_node cyclic_heap (HRef 0) 21 = Some (Inr None)
   \<and> is_thread_node cyclic_heap [(py ''self'', HRef 0), (py ''items'', HRef 0)] = Inr False
   \<and> thread_heap 0 = HDict [(py ''thread_items'', HRef 1)]
   \<and> is_thread_node thread_heap [(py ''thread_items'', HRef 1)] = Inr True
   \<and> find_thread_node thread_heap (HRef 0) 0 = Some (Inr (Some 0))
   \<and> find_thread_node thread_heap (HRef 0) 20 = Some (Inr (Some 0))
   \<and> find_thread_node thread_heap (HRef 0) 21 = Some (Inr None)
   \<and> thread_heap 4 = HList (replicate 10 HNull @ [HRef 0])
   \<and> find_thread_node thread_heap (HRef 4) 0 = Some (Inr None)"
proof -
  note c0 = find_thread_node_terminates [of cyclic_heap "HRef 0" 0]
  note c21 = find_thread_node_terminates [of cyclic_heap "HRef 0" 21]
  note t0 = find_thread_node_terminates [of thread_heap "HRef 0" 0]
  note t20 = find_thread_node_terminates [of thread_heap "HRef 0" 20]
  note t21 = find_thread_node_terminates [of thread_heap "HRef 0" 21]
  have cd: "cyclic_heap 0 = HDict [(py ''self'', HRef 0), (py ''items'', HRef 0)]"
    by (simp add: cyclic_heap_def)
  have 1: "find_thread_node cyclic_heap (HRef 0) 0 = Some (Inr None)"
    by (rule cyclic_heap_search)
  have 2: "find_thread_node cyclic_heap (HRef 0) 21 = Some (Inr None)"
    using c21 by simp
  have "(0::nat) \<le> 20 \<and> cyclic_heap 0 = HDict [(py ''self'', HRef 0), (py ''items'', HRef 0)]"
    using cd by simp
  with c0 1 have 3:
    "is_thread_node cyclic_heap [(py ''self'', HRef 0), (py ''items'', HRef 0)] = Inr False"
    by blast
  have "(0::nat) \<le> 20 \<and> thread_heap 0 = HDict [(py ''thread_items'', HRef 1)]
        \<and> is_thread_node thread_heap [(py ''thread_items'', HRef 1)] = Inr True"
    using thread_heap_0 thread_heap_node by simp
  with t0 have 6: "find_thread_node thread_heap (HRef 0) 0 = Some (Inr (Some 0))" by blast
  have "(20::nat) \<le> 20 \<and> thread_heap 0 = HDict [(py ''thread_items'', HRef 1)]
        \<and> is_thread_node thread_heap [(py ''thread_items'', HRef 1)] = Inr True"
    using thread_heap_0 thread_heap_node by simp
  with t20 have 7: "find_thread_node thread_heap (HRef 0) 20 = Some (Inr (Some 0))" by blast
  have 8: "find_thread_node thread_heap (HRef 0) 21 = Some (Inr None)"
    using t21 by simp
  have items: "\<forall>item \<in> set (take 10 (replicate 10 HNull @ [HRef 0])).
                 find_thread_node thread_heap item (0 + 1) = Some (Inr None)"
    by (simp add: find_thread_node_scalar)
  have "(0::nat) \<le> 20 \<and> thread_heap 4 = HList (replicate 10 HNull @ [HRef 0])"
    using thread_heap_4 by simp
  with t0 items have 10: "find_thread_node thread_heap (HRef 4) 0 = Some (Inr None)" by blast
  from 1 2 3 thread_heap_0 thread_heap_node 6 7 8 thread_heap_4 10 show ?thesis by simp
qed

end
